theory Spec2Isabelle
  imports Main "HOL-Library.Multiset"
begin

section \<open>JavaScript values and arrays\<close>

text \<open>
  The heap's backing array holds the placeholder \<open>null\<close> and numbers; reading past the
  end of an array yields \<open>undefined\<close>.  The code applies only \<open><\<close> and \<open><=\<close> to the
  numbers it stores, so a (finite) number is modelled by an integer.
\<close>

datatype jsval = Undefined | Null | Num int

text \<open>
  The relational operators convert both operands to numbers first: \<open>null\<close> becomes
  \<open>0\<close> and \<open>undefined\<close> becomes \<open>NaN\<close> (here \<open>None\<close>); a comparison with \<open>NaN\<close> is false.
\<close>

fun to_number :: "jsval \<Rightarrow> int option" where
  "to_number Undefined = None"
| "to_number Null = Some 0"
| "to_number (Num n) = Some n"

definition js_lt :: "jsval \<Rightarrow> jsval \<Rightarrow> bool" where
  "js_lt a b =
     (case to_number a of
        None \<Rightarrow> False
      | Some x \<Rightarrow> (case to_number b of None \<Rightarrow> False | Some y \<Rightarrow> x < y))"

definition js_le :: "jsval \<Rightarrow> jsval \<Rightarrow> bool" where
  "js_le a b =
     (case to_number a of
        None \<Rightarrow> False
      | Some x \<Rightarrow> (case to_number b of None \<Rightarrow> False | Some y \<Rightarrow> x \<le> y))"

fun is_number :: "jsval \<Rightarrow> bool" where
  "is_number (Num n) = True"
| "is_number Undefined = False"
| "is_number Null = False"

text \<open>\<open>a[i]\<close>: \<open>undefined\<close> out of range.\<close>

definition js_get :: "jsval list \<Rightarrow> nat \<Rightarrow> jsval" where
  "js_get xs i = (if i < length xs then xs ! i else Undefined)"

text \<open>\<open>a[i] = v\<close>: an assignment past the end extends the array, leaving holes that
  read as \<open>undefined\<close>.\<close>

definition js_set :: "jsval list \<Rightarrow> nat \<Rightarrow> jsval \<Rightarrow> jsval list" where
  "js_set xs i v =
     (if i < length xs then xs[i := v]
      else xs @ replicate (i - length xs) Undefined @ [v])"

text \<open>\<open>a.pop()\<close>: the removed last element and the shortened array; \<open>undefined\<close> and
  the unchanged array when it is empty.\<close>

definition js_pop :: "jsval list \<Rightarrow> jsval \<times> jsval list" where
  "js_pop xs = (if xs = [] then (Undefined, []) else (last xs, butlast xs))"

section \<open>MinHeap (src/unnamed/part_000)\<close>

record MinHeap =
  heap :: "jsval list"

text \<open>The constructor: \<open>this.heap = [null]\<close>.\<close>

definition new_MinHeap :: MinHeap where
  "new_MinHeap = \<lparr>heap = [Null]\<rparr>"

definition idxOfLeftChild :: "nat \<Rightarrow> nat" where
  "idxOfLeftChild i = i * 2"

definition idxOfRightChild :: "nat \<Rightarrow> nat" where
  "idxOfRightChild i = i * 2 + 1"

text \<open>\<open>[a[i], a[j]] = [a[j], a[i]]\<close>: both reads happen before the two writes.\<close>

definition MinHeap_swap :: "jsval list \<Rightarrow> nat \<Rightarrow> nat \<Rightarrow> jsval list" where
  "MinHeap_swap xs i j = js_set (js_set xs i (js_get xs j)) j (js_get xs i)"

text \<open>\<open>top()\<close> returns \<open>this.heap[1]\<close>; the state is returned with the result to make the
  absence of a side effect visible.\<close>

definition MinHeap_top :: "MinHeap \<Rightarrow> jsval \<times> MinHeap" where
  "MinHeap_top h = (js_get (heap h) 1, h)"

text \<open>The \<open>while\<close> loop of \<open>insert\<close>, on the array and the two loop variables.\<close>

function insert_loop :: "jsval list \<Rightarrow> nat \<Rightarrow> nat \<Rightarrow> jsval list" where
  "insert_loop xs currentIdx parentIdx =
     (if js_lt (js_get xs currentIdx) (js_get xs parentIdx)
      then insert_loop (MinHeap_swap xs currentIdx parentIdx) parentIdx (parentIdx div 2)
      else xs)"
  by pat_completeness auto
termination
proof (relation "measure (\<lambda>(xs, c, p). p + (if c = p then 0 else 1))")
  show "wf (measure (\<lambda>(xs, c, p). p + (if c = p then 0 else 1)))"
    by simp
next
  fix xs :: "jsval list" and currentIdx parentIdx :: nat
  assume lt: "js_lt (js_get xs currentIdx) (js_get xs parentIdx)"
  have "currentIdx \<noteq> parentIdx"
    using lt by (auto simp: js_lt_def split: option.splits)
  then show "((MinHeap_swap xs currentIdx parentIdx, parentIdx, parentIdx div 2),
              (xs, currentIdx, parentIdx))
             \<in> measure (\<lambda>(xs, c, p). p + (if c = p then 0 else 1))"
    by (cases "parentIdx = 0") auto
qed

declare insert_loop.simps [simp del]

definition MinHeap_insert :: "int \<Rightarrow> MinHeap \<Rightarrow> MinHeap" where
  "MinHeap_insert num h =
     (let xs = heap h @ [Num num];
          currentIdx = length xs - 1;
          parentIdx = (length xs - 1) div 2
      in h\<lparr>heap := insert_loop xs currentIdx parentIdx\<rparr>)"

text \<open>The \<open>while\<close> loop of \<open>shiftDown\<close>.  At the head of the loop \<open>idxOfLeftChild\<close> always
  holds the left child of \<open>idxOfNodeToShiftDown\<close>, so the node index is the only loop
  variable of the model.  The result is \<open>None\<close> when the loop does not return.\<close>

partial_function (option) shiftDown_loop :: "jsval list \<Rightarrow> nat \<Rightarrow> jsval list option" where
  "shiftDown_loop xs idxOfNodeToShiftDown =
     (let idxOfLeftChild' = idxOfLeftChild idxOfNodeToShiftDown in
      if idxOfLeftChild' < length xs then
        let idxOfRightChild' = idxOfRightChild idxOfNodeToShiftDown;
            isRightChildInBounds = idxOfRightChild' < length xs;
            isRightChildSmaller =
              (isRightChildInBounds \<and>
               js_lt (js_get xs idxOfRightChild') (js_get xs idxOfLeftChild'));
            idxOfSmallestChild =
              (if isRightChildSmaller then idxOfRightChild' else idxOfLeftChild');
            isParentSmallerOrEqual =
              js_le (js_get xs idxOfNodeToShiftDown) (js_get xs idxOfSmallestChild)
        in if isParentSmallerOrEqual then Some xs
           else shiftDown_loop (MinHeap_swap xs idxOfNodeToShiftDown idxOfSmallestChild)
                  idxOfSmallestChild
      else Some xs)"

declare shiftDown_loop.simps [code]

definition MinHeap_shiftDown :: "MinHeap \<Rightarrow> MinHeap option" where
  "MinHeap_shiftDown h =
     map_option (\<lambda>xs. h\<lparr>heap := xs\<rparr>) (shiftDown_loop (heap h) 1)"

definition MinHeap_extract :: "MinHeap \<Rightarrow> (jsval \<times> MinHeap) option" where
  "MinHeap_extract h =
     (if length (heap h) = 1 then Some (Null, h)
      else
        let min = js_get (heap h) 1;
            (lastNode, popped) = js_pop (heap h)
        in if length popped = 1 then Some (min, h\<lparr>heap := popped\<rparr>)
           else map_option (\<lambda>h'. (min, h'))
                  (MinHeap_shiftDown (h\<lparr>heap := js_set popped 1 lastNode\<rparr>)))"

text \<open>Size = backing-store length minus the sentinel slot.\<close>

definition MinHeap_size :: "MinHeap \<Rightarrow> nat" where
  "MinHeap_size h = length (heap h) - 1"

text \<open>A call of one of the three public methods, and the state after a sequence of calls
  (\<open>None\<close> if one of them does not return).\<close>

datatype MinHeap_call = Insert int | Extract | Top

fun MinHeap_calls :: "MinHeap_call list \<Rightarrow> MinHeap \<Rightarrow> MinHeap option" where
  "MinHeap_calls [] h = Some h"
| "MinHeap_calls (Insert num # cs) h = MinHeap_calls cs (MinHeap_insert num h)"
| "MinHeap_calls (Extract # cs) h =
     (case MinHeap_extract h of None \<Rightarrow> None | Some (r, h') \<Rightarrow> MinHeap_calls cs h')"
| "MinHeap_calls (Top # cs) h = (case MinHeap_top h of (r, h') \<Rightarrow> MinHeap_calls cs h')"

text \<open>The number of \<open>extract\<close> calls of a sequence that find the heap non-empty.\<close>

fun successful_extracts :: "MinHeap_call list \<Rightarrow> MinHeap \<Rightarrow> nat" where
  "successful_extracts [] h = 0"
| "successful_extracts (Insert num # cs) h = successful_extracts cs (MinHeap_insert num h)"
| "successful_extracts (Extract # cs) h =
     (case MinHeap_extract h of
        None \<Rightarrow> 0
      | Some (r, h') \<Rightarrow>
          (if length (heap h) = 1 then 0 else 1) + successful_extracts cs h')"
| "successful_extracts (Top # cs) h = successful_extracts cs h"

text \<open>The driver of the source: \<open>list.forEach(el => MH.insert(el))\<close>, and \<open>extract()\<close>
  called \<open>n\<close> times, collecting the results.\<close>

definition insert_all :: "int list \<Rightarrow> MinHeap \<Rightarrow> MinHeap" where
  "insert_all vs h = foldl (\<lambda>h' el. MinHeap_insert el h') h vs"

fun extract_times :: "nat \<Rightarrow> MinHeap \<Rightarrow> (jsval list \<times> MinHeap) option" where
  "extract_times 0 h = Some ([], h)"
| "extract_times (Suc n) h =
     (case MinHeap_extract h of
        None \<Rightarrow> None
      | Some (r, h') \<Rightarrow> map_option (\<lambda>(rs, h''). (r # rs, h'')) (extract_times n h'))"

section \<open>The insert of src/MinHeap/index.js\<close>

text \<open>
  This version recomputes the parent as \<open>Math.floor((currentIdx - 1) / 2)\<close>, which is
  \<open>-1\<close> at index \<open>0\<close>: the loop variables are integers here, and a read at a negative
  index yields \<open>undefined\<close>.  The swap is reached only when the comparison is true,
  hence with both indices inside the array (lemma \<open>index_js_guard_in_range\<close>).
\<close>

definition js_get_int :: "jsval list \<Rightarrow> int \<Rightarrow> jsval" where
  "js_get_int xs i = (if 0 \<le> i \<and> i < int (length xs) then xs ! nat i else Undefined)"

function insert_loop_index_js :: "jsval list \<Rightarrow> int \<Rightarrow> int \<Rightarrow> jsval list" where
  "insert_loop_index_js xs currentIdx parentIdx =
     (if js_lt (js_get_int xs currentIdx) (js_get_int xs parentIdx)
      then insert_loop_index_js (MinHeap_swap xs (nat currentIdx) (nat parentIdx))
             parentIdx ((parentIdx - 1) div 2)
      else xs)"
  by pat_completeness auto
termination
proof (relation "measure (\<lambda>(xs, c, p). nat (p + 1))")
  show "wf (measure (\<lambda>(xs, c, p). nat (p + 1)))"
    by simp
next
  fix xs :: "jsval list" and currentIdx parentIdx :: int
  assume lt: "js_lt (js_get_int xs currentIdx) (js_get_int xs parentIdx)"
  have "0 \<le> parentIdx"
    using lt by (auto simp: js_lt_def js_get_int_def split: option.splits if_splits)
  then show "((MinHeap_swap xs (nat currentIdx) (nat parentIdx), parentIdx,
               (parentIdx - 1) div 2), (xs, currentIdx, parentIdx))
             \<in> measure (\<lambda>(xs, c, p). nat (p + 1))"
    by simp
qed

definition MinHeap_insert_index_js :: "int \<Rightarrow> MinHeap \<Rightarrow> MinHeap" where
  "MinHeap_insert_index_js num h =
     (let xs = heap h @ [Num num];
          currentIdx = int (length xs) - 1;
          parentIdx = (int (length xs) - 1) div 2
      in h\<lparr>heap := insert_loop_index_js xs currentIdx parentIdx\<rparr>)"

definition insert_all_index_js :: "int list \<Rightarrow> MinHeap \<Rightarrow> MinHeap" where
  "insert_all_index_js vs h = foldl (\<lambda>h' el. MinHeap_insert_index_js el h') h vs"

section \<open>Queue: the array-backed queue\<close>

record 'a Queue =
  items :: "'a list"

definition new_Queue :: "'a Queue" where
  "new_Queue = \<lparr>items = []\<rparr>"

definition Queue_size :: "'a Queue \<Rightarrow> nat" where
  "Queue_size q = length (items q)"

definition Queue_isEmpty :: "'a Queue \<Rightarrow> bool" where
  "Queue_isEmpty q = (length (items q) = 0)"

text \<open>\<open>enqueue\<close> pushes and returns the new size.\<close>

definition Queue_enqueue :: "'a \<Rightarrow> 'a Queue \<Rightarrow> nat \<times> 'a Queue" where
  "Queue_enqueue item q = (let q' = q\<lparr>items := items q @ [item]\<rparr> in (Queue_size q', q'))"

text \<open>\<open>dequeue\<close> is \<open>this.items.shift()\<close>: the first item removed, or \<open>undefined\<close> (here
  \<open>None\<close>) and no change when the array is empty.\<close>

definition Queue_dequeue :: "'a Queue \<Rightarrow> 'a option \<times> 'a Queue" where
  "Queue_dequeue q =
     (case items q of [] \<Rightarrow> (None, q) | x # rest \<Rightarrow> (Some x, q\<lparr>items := rest\<rparr>))"

definition Queue_front :: "'a Queue \<Rightarrow> 'a option" where
  "Queue_front q = (case items q of [] \<Rightarrow> None | x # rest \<Rightarrow> Some x)"

datatype 'a Queue_call = Enqueue 'a | Dequeue

text \<open>The results of the \<open>dequeue\<close> calls of a sequence, in order, and the final state.\<close>

fun Queue_calls :: "'a Queue_call list \<Rightarrow> 'a Queue \<Rightarrow> 'a option list \<times> 'a Queue" where
  "Queue_calls [] q = ([], q)"
| "Queue_calls (Enqueue item # cs) q = Queue_calls cs (snd (Queue_enqueue item q))"
| "Queue_calls (Dequeue # cs) q =
     (case Queue_dequeue q of (r, q') \<Rightarrow>
        (case Queue_calls cs q' of (rs, q'') \<Rightarrow> (r # rs, q'')))"

text \<open>The items passed to \<open>enqueue\<close>, in call order, and the items a list of results
  holds.\<close>

fun enqueued :: "'a Queue_call list \<Rightarrow> 'a list" where
  "enqueued [] = []"
| "enqueued (Enqueue item # cs) = item # enqueued cs"
| "enqueued (Dequeue # cs) = enqueued cs"

fun dequeued :: "'a option list \<Rightarrow> 'a list" where
  "dequeued [] = []"
| "dequeued (None # rs) = dequeued rs"
| "dequeued (Some x # rs) = x # dequeued rs"

section \<open>LinkedListQueue: the linked-node queue\<close>

text \<open>
  Nodes are objects that \<open>head\<close>, \<open>tail\<close> and the \<open>next\<close> fields refer to, and \<open>enqueue\<close>
  writes \<open>this.tail.next\<close> of a node that is also reachable from \<open>head\<close>: the nodes live
  in an explicit store, a reference is an index into it (\<open>None\<close> is \<open>null\<close>), and
  \<open>new QueueNode(val)\<close> appends to it.  Dereferencing \<open>null\<close> is a \<open>TypeError\<close>.
\<close>

datatype error = TypeError

record 'a QueueNode =
  data :: 'a
  next_node :: "nat option"

record 'a LinkedListQueue =
  head :: "nat option"
  tail :: "nat option"
  size_q :: int
  nodes :: "'a QueueNode list"

definition new_LinkedListQueue :: "'a LinkedListQueue" where
  "new_LinkedListQueue = \<lparr>head = None, tail = None, size_q = 0, nodes = []\<rparr>"

definition LinkedListQueue_isEmpty :: "'a LinkedListQueue \<Rightarrow> bool" where
  "LinkedListQueue_isEmpty q = (head q = None)"

definition LinkedListQueue_enqueue ::
  "'a \<Rightarrow> 'a LinkedListQueue \<Rightarrow> error + (int \<times> 'a LinkedListQueue)" where
  "LinkedListQueue_enqueue val q =
     (let newTail = length (nodes q);
          q1 = q\<lparr>nodes := nodes q @ [\<lparr>data = val, next_node = None\<rparr>]\<rparr>
      in if LinkedListQueue_isEmpty q1 then
           Inr (size_q q1 + 1,
                q1\<lparr>head := Some newTail, tail := Some newTail, size_q := size_q q1 + 1\<rparr>)
         else
           (case tail q1 of
              None \<Rightarrow> Inl TypeError
            | Some t \<Rightarrow>
                if t < length (nodes q1) then
                  Inr (size_q q1 + 1,
                       q1\<lparr>nodes := (nodes q1)[t := (nodes q1 ! t)\<lparr>next_node := Some newTail\<rparr>],
                          tail := Some newTail, size_q := size_q q1 + 1\<rparr>)
                else Inl TypeError))"

text \<open>\<open>dequeue\<close> returns \<open>null\<close> (here \<open>None\<close>) when \<open>head\<close> is \<open>null\<close>.\<close>

definition LinkedListQueue_dequeue ::
  "'a LinkedListQueue \<Rightarrow> error + ('a option \<times> 'a LinkedListQueue)" where
  "LinkedListQueue_dequeue q =
     (case head q of
        None \<Rightarrow> Inr (None, q)
      | Some h \<Rightarrow>
          if h < length (nodes q) then
            let dequeued = nodes q ! h;
                q1 = q\<lparr>head := next_node dequeued\<rparr>;
                q2 = (if head q1 = None then q1\<lparr>tail := None\<rparr> else q1);
                q3 = q2\<lparr>size_q := size_q q2 - 1\<rparr>
            in Inr (Some (data dequeued), q3)
          else Inl TypeError)"

definition LinkedListQueue_front :: "'a LinkedListQueue \<Rightarrow> error + 'a option" where
  "LinkedListQueue_front q =
     (case head q of
        None \<Rightarrow> Inr None
      | Some h \<Rightarrow> if h < length (nodes q) then Inr (Some (data (nodes q ! h))) else Inl TypeError)"

fun LinkedListQueue_calls ::
  "'a Queue_call list \<Rightarrow> 'a LinkedListQueue \<Rightarrow> error + ('a option list \<times> 'a LinkedListQueue)" where
  "LinkedListQueue_calls [] q = Inr ([], q)"
| "LinkedListQueue_calls (Enqueue val # cs) q =
     (case LinkedListQueue_enqueue val q of
        Inl e \<Rightarrow> Inl e
      | Inr (n, q') \<Rightarrow> LinkedListQueue_calls cs q')"
| "LinkedListQueue_calls (Dequeue # cs) q =
     (case LinkedListQueue_dequeue q of
        Inl e \<Rightarrow> Inl e
      | Inr (r, q') \<Rightarrow>
          (case LinkedListQueue_calls cs q' of
             Inl e \<Rightarrow> Inl e
           | Inr (rs, q'') \<Rightarrow> Inr (r # rs, q'')))"

text \<open>The items of a linked queue, front first: the \<open>data\<close> fields met on the way from
  \<open>head\<close> along \<open>next\<close>, for at most as many steps as the store has nodes.\<close>

fun walk :: "nat \<Rightarrow> 'a QueueNode list \<Rightarrow> nat option \<Rightarrow> 'a list" where
  "walk 0 st p = []"
| "walk (Suc n) st None = []"
| "walk (Suc n) st (Some a) =
     (if a < length st then data (st ! a) # walk n st (next_node (st ! a)) else [])"

definition LinkedListQueue_items :: "'a LinkedListQueue \<Rightarrow> 'a list" where
  "LinkedListQueue_items q = walk (length (nodes q)) (nodes q) (head q)"

section \<open>Invariants\<close>

text \<open>The values the heap currently stores: the backing array without the sentinel
  slot.\<close>

definition stored :: "MinHeap \<Rightarrow> jsval list" where
  "stored h = tl (heap h)"

text \<open>
  The data model of the heap: the array is not empty, index 0 holds the sentinel \<open>null\<close>,
  every other slot holds a number, and every slot \<open>i > 1\<close> is at least the slot of its
  parent \<open>floor(i / 2)\<close>.
\<close>

definition heap_invariant :: "MinHeap \<Rightarrow> bool" where
  "heap_invariant h \<longleftrightarrow>
     heap h \<noteq> [] \<and> hd (heap h) = Null \<and> list_all is_number (stored h) \<and>
     list_all (\<lambda>i. js_le (js_get (heap h) (i div 2)) (js_get (heap h) i)) [2..<length (heap h)]"

text \<open>The number of \<open>insert\<close> calls of a sequence.\<close>

fun inserts :: "MinHeap_call list \<Rightarrow> nat" where
  "inserts [] = 0"
| "inserts (Insert num # cs) = Suc (inserts cs)"
| "inserts (Extract # cs) = inserts cs"
| "inserts (Top # cs) = inserts cs"

text \<open>
  For the proofs: the number a defined value counts as in a comparison, and heap order
  over the whole array under the comparisons of the code, the sentinel slot included
  (index 0 is its own parent).
\<close>

definition key :: "jsval \<Rightarrow> int" where
  "key v = (case to_number v of None \<Rightarrow> 0 | Some n \<Rightarrow> n)"

definition heap_ordered :: "jsval list \<Rightarrow> bool" where
  "heap_ordered xs \<longleftrightarrow>
     xs \<noteq> [] \<and> Undefined \<notin> set xs \<and> (\<forall>i<length xs. key (xs ! (i div 2)) \<le> key (xs ! i))"

text \<open>For the proofs: the sentinel is in place and every other slot holds a number
  that is at least 0.\<close>

definition sentinel_ok :: "jsval list \<Rightarrow> bool" where
  "sentinel_ok xs \<longleftrightarrow> xs \<noteq> [] \<and> xs ! 0 = Null \<and> (\<forall>v\<in>set (tl xs). \<exists>n\<ge>0. v = Num n)"

text \<open>Every number a sequence of calls passes to \<open>insert\<close> is at least 0.\<close>

fun nonnegative_inserts :: "MinHeap_call list \<Rightarrow> bool" where
  "nonnegative_inserts [] = True"
| "nonnegative_inserts (Insert num # cs) = (0 \<le> num \<and> nonnegative_inserts cs)"
| "nonnegative_inserts (Extract # cs) = nonnegative_inserts cs"
| "nonnegative_inserts (Top # cs) = nonnegative_inserts cs"

section \<open>The loops as the specification words them\<close>

text \<open>
  The specification describes the sift-down of \<open>extract\<close> step by step: a right child
  exists only if its index is within bounds; the node is swapped with the smaller of its
  children, the left one being preferred when the right one is absent or not smaller;
  the loop stops when the node is less than or equal to its children or has none.  The
  definitions of this section follow these words, not the source.
\<close>

text \<open>The children of node \<open>i\<close> (left at \<open>i * 2\<close>, right at \<open>i * 2 + 1\<close>) whose index is
  within bounds.\<close>

definition in_bounds_children :: "jsval list \<Rightarrow> nat \<Rightarrow> nat list" where
  "in_bounds_children xs i = filter (\<lambda>j. j < length xs) [i * 2, i * 2 + 1]"

text \<open>The smaller of the in-bounds children; a later child replaces an earlier one only
  when it is strictly smaller, so the left child wins ties and is the choice when the
  right child is absent.  \<open>None\<close> when the node has no children.\<close>

definition smallest_child :: "jsval list \<Rightarrow> nat \<Rightarrow> nat option" where
  "smallest_child xs i =
     (case in_bounds_children xs i of
        [] \<Rightarrow> None
      | c # cs \<Rightarrow>
          Some (foldl (\<lambda>best d. if js_lt (js_get xs d) (js_get xs best) then d else best) c cs))"

text \<open>The loop: stop when there is no child or the node is less than or equal to the
  chosen child; otherwise swap with it and continue from its position.\<close>

partial_function (option) sift_down_spec :: "jsval list \<Rightarrow> nat \<Rightarrow> jsval list option" where
  "sift_down_spec xs i =
     (case smallest_child xs i of
        None \<Rightarrow> Some xs
      | Some c \<Rightarrow>
          if js_le (js_get xs i) (js_get xs c) then Some xs
          else sift_down_spec (MinHeap_swap xs i c) c)"

declare sift_down_spec.simps [code]

text \<open>
  The sift-up of \<open>insert\<close> in the specification's words: while the inserted value is
  strictly smaller than its parent at \<open>floor(i / 2)\<close>, swap them and continue from the
  parent's index; stop when it is not smaller or it has reached index 1.
\<close>

function sift_up_spec :: "jsval list \<Rightarrow> nat \<Rightarrow> jsval list" where
  "sift_up_spec xs i =
     (if 1 < i \<and> js_lt (js_get xs i) (js_get xs (i div 2))
      then sift_up_spec (MinHeap_swap xs i (i div 2)) (i div 2)
      else xs)"
  by pat_completeness auto
termination
  by (relation "measure (\<lambda>(xs, i). i)") auto

declare sift_up_spec.simps [simp del]

section \<open>Well-formed linked queues\<close>

text \<open>For the proofs: following \<open>next\<close> from reference \<open>p\<close> visits exactly the nodes at
  the addresses \<open>as\<close>, in order, and ends at \<open>null\<close>.\<close>

fun chain :: "'a QueueNode list \<Rightarrow> nat option \<Rightarrow> nat list \<Rightarrow> bool" where
  "chain st p [] = (p = None)"
| "chain st p (a # as) = (p = Some a \<and> a < length st \<and> chain st (next_node (st ! a)) as)"

text \<open>The queue is a well-formed list over the addresses \<open>as\<close>: \<open>head\<close> starts the
  chain, no node occurs twice, and \<open>tail\<close> refers to the last node (\<open>null\<close> when empty).\<close>

definition linked :: "'a LinkedListQueue \<Rightarrow> nat list \<Rightarrow> bool" where
  "linked q as \<longleftrightarrow>
     chain (nodes q) (head q) as \<and> distinct as \<and>
     tail q = (if as = [] then None else Some (last as))"

definition node_data :: "'a LinkedListQueue \<Rightarrow> nat list \<Rightarrow> 'a list" where
  "node_data q as = map (\<lambda>a. data (nodes q ! a)) as"

section \<open>Properties\<close>

subsection \<open>Comparisons and swaps\<close>

lemma js_lt_iff: "js_lt a b \<longleftrightarrow> a \<noteq> Undefined \<and> b \<noteq> Undefined \<and> key a < key b"
  by (cases a; cases b) (simp_all add: js_lt_def key_def)

lemma js_le_iff: "js_le a b \<longleftrightarrow> a \<noteq> Undefined \<and> b \<noteq> Undefined \<and> key a \<le> key b"
  by (cases a; cases b) (simp_all add: js_le_def key_def)

lemma swap_in_range:
  "i < length xs \<Longrightarrow> j < length xs \<Longrightarrow> MinHeap_swap xs i j = xs[i := xs ! j, j := xs ! i]"
  by (simp add: MinHeap_swap_def js_set_def js_get_def)

lemma mset_swap_in_range:
  "i < length xs \<Longrightarrow> j < length xs \<Longrightarrow> mset (MinHeap_swap xs i j) = mset xs"
  by (simp add: swap_in_range mset_swap)

lemma length_swap_in_range:
  "i < length xs \<Longrightarrow> j < length xs \<Longrightarrow> length (MinHeap_swap xs i j) = length xs"
  by (simp add: swap_in_range)

lemma insert_loop_order:
  assumes "Undefined \<notin> set xs" and "c < length xs"
    and "\<forall>i<length xs. i \<noteq> c \<longrightarrow> key (xs ! (i div 2)) \<le> key (xs ! i)"
    and "\<forall>i<length xs. i div 2 = c \<longrightarrow> key (xs ! (c div 2)) \<le> key (xs ! i)"
  shows "mset (insert_loop xs c (c div 2)) = mset xs
       \<and> (\<forall>i<length xs. key (insert_loop xs c (c div 2) ! (i div 2))
                          \<le> key (insert_loop xs c (c div 2) ! i))"
  using assms
proof (induction c arbitrary: xs rule: less_induct)
  case (less c)
  let ?p = "c div 2"
  have pl: "?p < length xs" using less.prems(2) by simp
  have defd: "xs ! c \<noteq> Undefined" "xs ! ?p \<noteq> Undefined"
    using less.prems(1,2) pl by (metis nth_mem)+
  show ?case
  proof (cases "js_lt (js_get xs c) (js_get xs ?p)")
    case False
    then have "key (xs ! ?p) \<le> key (xs ! c)"
      using defd less.prems(2) pl by (simp add: js_lt_iff js_get_def)
    then have "\<forall>i<length xs. key (xs ! (i div 2)) \<le> key (xs ! i)"
      using less.prems(3) by metis
    then show ?thesis
      using False by (simp add: insert_loop.simps [of xs c ?p])
  next
    case True
    then have K: "key (xs ! c) < key (xs ! ?p)"
      using less.prems(2) pl by (simp add: js_lt_iff js_get_def)
    then have cp: "?p \<noteq> c" by auto
    then have pc: "?p < c" by simp
    define ys where "ys = MinHeap_swap xs c ?p"
    have ys: "ys = xs[c := xs ! ?p, ?p := xs ! c]"
      using less.prems(2) pl by (simp add: ys_def swap_in_range)
    have len: "length ys = length xs" by (simp add: ys)
    have ms: "mset ys = mset xs"
      using less.prems(2) pl by (simp add: ys_def mset_swap_in_range)
    have a1: "Undefined \<notin> set ys"
      using less.prems(1) ms by (metis set_mset_mset)
    have ysc: "ys ! c = xs ! ?p" and ysp: "ys ! ?p = xs ! c"
      using less.prems(2) pl cp by (simp_all add: ys)
    have yso: "\<And>i. i \<noteq> c \<Longrightarrow> i \<noteq> ?p \<Longrightarrow> ys ! i = xs ! i"
      by (simp add: ys)
    have a3: "\<forall>i<length ys. i \<noteq> ?p \<longrightarrow> key (ys ! (i div 2)) \<le> key (ys ! i)"
    proof (intro allI impI)
      fix i assume i: "i < length ys" "i \<noteq> ?p"
      show "key (ys ! (i div 2)) \<le> key (ys ! i)"
      proof (cases "i = c")
        case True
        then show ?thesis using K ysc ysp by simp
      next
        case ic: False
        have yi: "ys ! i = xs ! i" using ic i(2) yso by simp
        consider "i div 2 = c" | "i div 2 = ?p" "i div 2 \<noteq> c" | "i div 2 \<noteq> c" "i div 2 \<noteq> ?p"
          by blast
        then show ?thesis
        proof cases
          case 1
          then show ?thesis using less.prems(4) i(1) len yi ysc by metis
        next
          case 2
          have "key (xs ! ?p) \<le> key (xs ! i)"
            using less.prems(3) i(1) len ic 2(1) by metis
          then show ?thesis using K 2(1) ysp yi by simp
        next
          case 3
          then have "ys ! (i div 2) = xs ! (i div 2)" using yso by simp
          then show ?thesis using less.prems(3) i(1) len ic yi by metis
        qed
      qed
    qed
    have a4: "\<forall>i<length ys. i div 2 = ?p \<longrightarrow> key (ys ! (?p div 2)) \<le> key (ys ! i)"
    proof (intro allI impI)
      fix i assume i: "i < length ys" "i div 2 = ?p"
      have gp: "key (ys ! (?p div 2)) \<le> key (xs ! ?p)"
      proof (cases "?p div 2 = ?p")
        case True
        then show ?thesis using ysp K by simp
      next
        case False
        have "?p div 2 \<le> ?p" by simp
        then have "?p div 2 \<noteq> c" using pc by linarith
        then have "ys ! (?p div 2) = xs ! (?p div 2)" using False yso by simp
        then show ?thesis using less.prems(3) pl cp by metis
      qed
      show "key (ys ! (?p div 2)) \<le> key (ys ! i)"
      proof (cases "i = c")
        case True
        then show ?thesis using gp ysc by simp
      next
        case ic: False
        show ?thesis
        proof (cases "i = ?p")
          case True
          then have "?p div 2 = ?p" using i(2) by simp
          then show ?thesis using True by simp
        next
          case False
          then have "ys ! i = xs ! i" using ic yso by simp
          moreover have "key (xs ! ?p) \<le> key (xs ! i)"
            using less.prems(3) i len ic by metis
          ultimately show ?thesis using gp by simp
        qed
      qed
    qed
    have IH: "mset (insert_loop ys ?p (?p div 2)) = mset ys
       \<and> (\<forall>i<length ys. key (insert_loop ys ?p (?p div 2) ! (i div 2))
                          \<le> key (insert_loop ys ?p (?p div 2) ! i))"
      using less.IH [OF pc a1 _ a3 a4] pl len by simp
    have "insert_loop xs c ?p = insert_loop ys ?p (?p div 2)"
      using True by (simp add: insert_loop.simps [of xs c ?p] ys_def)
    then show ?thesis using IH ms len by simp
  qed
qed

subsection \<open>Sifting down\<close>

lemma shiftDown_loop_step:
  "shiftDown_loop xs i =
     (if 2 * i < length xs then
        (let c = (if 2 * i + 1 < length xs \<and> js_lt (xs ! (2 * i + 1)) (xs ! (2 * i))
                  then 2 * i + 1 else 2 * i)
         in if js_le (xs ! i) (xs ! c) then Some xs
            else shiftDown_loop (xs[i := xs ! c, c := xs ! i]) c)
      else Some xs)"
  by (subst shiftDown_loop.simps)
     (auto simp: Let_def idxOfLeftChild_def idxOfRightChild_def js_get_def
                 MinHeap_swap_def js_set_def mult.commute)

lemma shiftDown_loop_order:
  assumes "Undefined \<notin> set xs" and "1 \<le> i"
    and "\<forall>j<length xs. 1 < j \<longrightarrow> j div 2 \<noteq> i \<longrightarrow> key (xs ! (j div 2)) \<le> key (xs ! j)"
    and "\<forall>j<length xs. j div 2 = i \<longrightarrow> 1 < i \<longrightarrow> key (xs ! (i div 2)) \<le> key (xs ! j)"
  shows "\<exists>ys. shiftDown_loop xs i = Some ys \<and> mset ys = mset xs \<and> ys ! 0 = xs ! 0
            \<and> (\<forall>j<length xs. 1 < j \<longrightarrow> key (ys ! (j div 2)) \<le> key (ys ! j))"
  using assms
proof (induction "length xs - i" arbitrary: xs i rule: less_induct)
  case less
  show ?case
  proof (cases "2 * i < length xs")
    case False
    then have "\<forall>j<length xs. j div 2 \<noteq> i" by auto
    then have "\<forall>j<length xs. 1 < j \<longrightarrow> key (xs ! (j div 2)) \<le> key (xs ! j)"
      using less.prems(3) by simp
    moreover have "shiftDown_loop xs i = Some xs"
      using False by (subst shiftDown_loop_step) simp
    ultimately show ?thesis by simp
  next
    case inb: True
    define c where "c = (if 2 * i + 1 < length xs \<and> js_lt (xs ! (2 * i + 1)) (xs ! (2 * i))
                  then 2 * i + 1 else 2 * i)"
    have cl: "c < length xs" and ci: "c div 2 = i" and ic: "i < c" and il: "i < length xs"
      using inb less.prems(2) by (auto simp: c_def)
    have defd: "\<And>j. j < length xs \<Longrightarrow> xs ! j \<noteq> Undefined"
      using less.prems(1) by (metis nth_mem)
    have M: "key (xs ! c) \<le> key (xs ! j)" if "j < length xs" "j div 2 = i" for j
    proof -
      have j: "j = 2 * i \<or> j = 2 * i + 1" using that(2) by auto
      show ?thesis
      proof (cases "2 * i + 1 < length xs \<and> js_lt (xs ! (2 * i + 1)) (xs ! (2 * i))")
        case True
        then have "c = 2 * i + 1" "key (xs ! (2 * i + 1)) < key (xs ! (2 * i))"
          by (simp_all add: c_def js_lt_iff)
        then show ?thesis using j by auto
      next
        case False
        then have c2: "c = 2 * i" by (simp add: c_def)
        show ?thesis
        proof (cases "j = 2 * i")
          case True
          then show ?thesis using c2 by simp
        next
          case False
          then have j1: "j = 2 * i + 1" using j by simp
          then have "\<not> js_lt (xs ! (2 * i + 1)) (xs ! (2 * i))"
            using \<open>\<not> (2 * i + 1 < length xs \<and> js_lt (xs ! (2 * i + 1)) (xs ! (2 * i)))\<close> that(1)
            by simp
          then have "key (xs ! (2 * i)) \<le> key (xs ! (2 * i + 1))"
            using defd that(1) j1 inb by (simp add: js_lt_iff)
          then show ?thesis using c2 j1 by simp
        qed
      qed
    qed
    show ?thesis
    proof (cases "js_le (xs ! i) (xs ! c)")
      case True
      then have le: "key (xs ! i) \<le> key (xs ! c)" by (simp add: js_le_iff)
      have "\<forall>j<length xs. 1 < j \<longrightarrow> key (xs ! (j div 2)) \<le> key (xs ! j)"
      proof (intro allI impI)
        fix j assume j: "j < length xs" "1 < j"
        show "key (xs ! (j div 2)) \<le> key (xs ! j)"
        proof (cases "j div 2 = i")
          case True
          then show ?thesis using M [OF j(1) True] le by simp
        next
          case False
          then show ?thesis using less.prems(3) j by simp
        qed
      qed
      moreover have "shiftDown_loop xs i = Some xs"
        using inb True by (subst shiftDown_loop_step) (simp add: c_def Let_def)
      ultimately show ?thesis by simp
    next
      case False
      then have K: "key (xs ! c) < key (xs ! i)"
        using defd cl il by (simp add: js_le_iff)
      define ys where "ys = xs[i := xs ! c, c := xs ! i]"
      have len: "length ys = length xs" by (simp add: ys_def)
      have ms: "mset ys = mset xs"
        using cl il by (simp add: ys_def mset_swap)
      have a1: "Undefined \<notin> set ys"
        using less.prems(1) ms by (metis set_mset_mset)
      have ysi: "ys ! i = xs ! c" and ysc: "ys ! c = xs ! i"
        using cl il ic by (simp_all add: ys_def)
      have yso: "\<And>j. j \<noteq> i \<Longrightarrow> j \<noteq> c \<Longrightarrow> ys ! j = xs ! j"
        by (simp add: ys_def)
      have a3: "\<forall>j<length ys. 1 < j \<longrightarrow> j div 2 \<noteq> c \<longrightarrow> key (ys ! (j div 2)) \<le> key (ys ! j)"
      proof (intro allI impI)
        fix j assume j: "j < length ys" "1 < j" "j div 2 \<noteq> c"
        consider "j = i" | "j = c" | "j \<noteq> i" "j \<noteq> c" "j div 2 = i" | "j \<noteq> i" "j \<noteq> c" "j div 2 \<noteq> i"
          by blast
        then show "key (ys ! (j div 2)) \<le> key (ys ! j)"
        proof cases
          case 1
          then have i1: "1 < i" using j(2) by simp
          have "i div 2 \<noteq> i" "i div 2 \<noteq> c" using i1 ic by auto
          then have "ys ! (i div 2) = xs ! (i div 2)" using yso by simp
          moreover have "key (xs ! (i div 2)) \<le> key (xs ! c)"
            using less.prems(4) cl ci i1 by simp
          ultimately show ?thesis using 1 ysi by simp
        next
          case 2
          then show ?thesis using ci ysi ysc K by simp
        next
          case 3
          then have "ys ! j = xs ! j" using yso by simp
          then show ?thesis using M [of j] j(1) len 3(3) ysi by simp
        next
          case 4
          then have "ys ! j = xs ! j" "ys ! (j div 2) = xs ! (j div 2)"
            using yso j(3) by simp_all
          then show ?thesis using less.prems(3) j(1,2) len 4(3) by simp
        qed
      qed
      have a4: "\<forall>j<length ys. j div 2 = c \<longrightarrow> 1 < c \<longrightarrow> key (ys ! (c div 2)) \<le> key (ys ! j)"
      proof (intro allI impI)
        fix j assume j: "j < length ys" "j div 2 = c" "1 < c"
        have "j \<noteq> i" "j \<noteq> c" "1 < j" using j(2,3) ic ci by auto
        then have "ys ! j = xs ! j" using yso by simp
        moreover have "key (xs ! c) \<le> key (xs ! j)"
          using less.prems(3) j(1,2) len \<open>1 < j\<close> ic by auto
        ultimately show "key (ys ! (c div 2)) \<le> key (ys ! j)"
          using ci ysi by simp
      qed
      have dec: "length ys - c < length xs - i"
        using len cl ic by simp
      have c1: "1 \<le> c" using ic by simp
      obtain zs where zs: "shiftDown_loop ys c = Some zs" "mset zs = mset ys" "zs ! 0 = ys ! 0"
          "\<forall>j<length ys. 1 < j \<longrightarrow> key (zs ! (j div 2)) \<le> key (zs ! j)"
        using less.hyps [OF dec a1 c1 a3 a4] by blast
      have "ys ! 0 = xs ! 0" using yso less.prems(2) ic by simp
      moreover have "shiftDown_loop xs i = shiftDown_loop ys c"
        using inb False by (subst shiftDown_loop_step) (simp add: c_def Let_def ys_def)
      ultimately show ?thesis using zs ms len by simp
    qed
  qed
qed

text \<open>The loop returns from every array when it starts at an index above 0, as
  \<open>shiftDown\<close> does; so \<open>extract\<close> returns in every state.\<close>

lemma shiftDown_loop_returns:
  assumes "0 < i"
  shows "\<exists>ys. shiftDown_loop xs i = Some ys \<and> length ys = length xs"
  using assms
proof (induction "length xs - i" arbitrary: xs i rule: less_induct)
  case less
  show ?case
  proof (cases "2 * i < length xs")
    case False
    then show ?thesis by (subst shiftDown_loop_step) simp
  next
    case inb: True
    define c where "c = (if 2 * i + 1 < length xs \<and> js_lt (xs ! (2 * i + 1)) (xs ! (2 * i))
                  then 2 * i + 1 else 2 * i)"
    have cl: "c < length xs" and ic: "i < c"
      using inb less.prems by (auto simp: c_def)
    show ?thesis
    proof (cases "js_le (xs ! i) (xs ! c)")
      case True
      then show ?thesis
        using inb by (subst shiftDown_loop_step) (simp add: c_def Let_def)
    next
      case False
      define ys where "ys = xs[i := xs ! c, c := xs ! i]"
      have len: "length ys = length xs" by (simp add: ys_def)
      have dec: "length ys - c < length xs - i" using len cl ic by simp
      have c0: "0 < c" using ic by simp
      obtain zs where zs: "shiftDown_loop ys c = Some zs" "length zs = length ys"
        using less.hyps [OF dec c0] by blast
      have "shiftDown_loop xs i = shiftDown_loop ys c"
        using inb False by (subst shiftDown_loop_step) (simp add: c_def Let_def ys_def)
      then show ?thesis using zs len by simp
    qed
  qed
qed

lemma extract_returns: "\<exists>r h'. MinHeap_extract h = Some (r, h')"
proof -
  obtain ys where "shiftDown_loop (js_set (snd (js_pop (heap h))) 1 (fst (js_pop (heap h)))) 1 = Some ys"
    using shiftDown_loop_returns [of 1 "js_set (snd (js_pop (heap h))) 1 (fst (js_pop (heap h)))"]
    by auto
  then show ?thesis
    by (auto simp: MinHeap_extract_def Let_def MinHeap_shiftDown_def split: prod.splits)
qed


subsection \<open>Extracting the root\<close>

lemma mset_tl: "xs \<noteq> [] \<Longrightarrow> mset xs = add_mset (xs ! 0) (mset (tl xs))"
  by (cases xs) simp_all

lemma root_min:
  assumes "\<forall>j<length xs. 1 < j \<longrightarrow> key (xs ! (j div 2)) \<le> key (xs ! j)"
    and "1 \<le> j" and "j < length xs"
  shows "key (xs ! 1) \<le> key (xs ! j)"
  using assms(2,3)
proof (induction j rule: less_induct)
  case (less j)
  show ?case
  proof (cases "j = 1")
    case True
    then show ?thesis by simp
  next
    case False
    then have j: "1 < j" using less.prems(1) by simp
    then have "j div 2 < j" "1 \<le> j div 2" "j div 2 < length xs"
      using less.prems(2) by auto
    then have "key (xs ! 1) \<le> key (xs ! (j div 2))"
      using less.IH by simp
    moreover have "key (xs ! (j div 2)) \<le> key (xs ! j)"
      using assms(1) j less.prems(2) by simp
    ultimately show ?thesis by simp
  qed
qed

lemma extract_core:
  assumes "Undefined \<notin> set xs" and "3 \<le> length xs"
    and "\<forall>j<length xs. 1 < j \<longrightarrow> key (xs ! (j div 2)) \<le> key (xs ! j)"
  shows "\<exists>zs. shiftDown_loop (js_set (butlast xs) 1 (last xs)) 1 = Some zs
            \<and> length zs = length xs - 1 \<and> zs ! 0 = xs ! 0
            \<and> add_mset (xs ! 1) (mset (tl zs)) = mset (tl xs)
            \<and> (\<forall>j<length zs. 1 < j \<longrightarrow> key (zs ! (j div 2)) \<le> key (zs ! j))"
proof -
  obtain x0 x1 mid l where xs: "xs = x0 # x1 # mid @ [l]"
  proof -
    obtain x0 r where 1: "xs = x0 # r" using assms(2) by (cases xs) auto
    then obtain x1 r' where 2: "r = x1 # r'" using assms(2) by (cases r) auto
    then have "r' \<noteq> []" using assms(2) 1 by auto
    then have "r' = butlast r' @ [last r']" by simp
    then show ?thesis using that 1 2 by metis
  qed
  define ys where "ys = js_set (butlast xs) 1 (last xs)"
  have ys: "ys = x0 # l # mid"
    by (simp add: ys_def xs js_set_def butlast_append)
  have len: "length ys = length xs - 1" by (simp add: ys xs)
  have a1: "Undefined \<notin> set ys" using assms(1) by (auto simp: ys xs)
  have same: "ys ! j = xs ! j" if "j < length ys" "j \<noteq> 1" for j
  proof -
    have "(x0 # l # mid) ! j = (x0 # x1 # mid) ! j"
      using that(2) by (cases j) (auto simp: nth_Cons')
    also have "\<dots> = ((x0 # x1 # mid) @ [l]) ! j"
      using that(1) by (simp add: ys nth_append del: append_Cons)
    finally show ?thesis by (simp add: ys xs)
  qed
  have a3: "\<forall>j<length ys. 1 < j \<longrightarrow> j div 2 \<noteq> 1 \<longrightarrow> key (ys ! (j div 2)) \<le> key (ys ! j)"
  proof (intro allI impI)
    fix j assume j: "j < length ys" "1 < j" "j div 2 \<noteq> 1"
    have "ys ! j = xs ! j" "ys ! (j div 2) = xs ! (j div 2)"
      using same j by auto
    then show "key (ys ! (j div 2)) \<le> key (ys ! j)"
      using assms(3) j(1,2) len by simp
  qed
  have a4: "\<forall>j<length ys. j div 2 = 1 \<longrightarrow> 1 < (1::nat) \<longrightarrow> key (ys ! (1 div 2)) \<le> key (ys ! j)"
    by simp
  obtain zs where zs: "shiftDown_loop ys 1 = Some zs" "mset zs = mset ys" "zs ! 0 = ys ! 0"
      "\<forall>j<length ys. 1 < j \<longrightarrow> key (zs ! (j div 2)) \<le> key (zs ! j)"
    using shiftDown_loop_order [OF a1 _ a3 a4] by auto
  have lz: "length zs = length ys" using zs(2) by (metis size_mset)
  then have "zs \<noteq> []" using ys by auto
  then have "add_mset (zs ! 0) (mset (tl zs)) = add_mset (ys ! 0) (mset (tl ys))"
    using zs(2) mset_tl [of zs] mset_tl [of ys] ys by simp
  then have "mset (tl zs) = mset (tl ys)" using zs(3) by simp
  then have "add_mset (xs ! 1) (mset (tl zs)) = mset (tl xs)"
    by (simp add: ys xs)
  moreover have "zs ! 0 = xs ! 0" using zs(3) by (simp add: ys xs)
  moreover have "shiftDown_loop (js_set (butlast xs) 1 (last xs)) 1 = Some zs"
    using zs(1) by (simp add: ys_def)
  moreover have "length zs = length xs - 1" using lz len by simp
  moreover have "\<forall>j<length zs. 1 < j \<longrightarrow> key (zs ! (j div 2)) \<le> key (zs ! j)"
    using zs(4) lz by simp
  ultimately show ?thesis by blast
qed

subsection \<open>Heap order is kept by every call\<close>

lemma heap_ordered_root:
  assumes "heap_ordered xs" and "j < length xs"
  shows "key (xs ! 0) \<le> key (xs ! j)"
  using assms(2)
proof (induction j rule: less_induct)
  case (less j)
  show ?case
  proof (cases "j = 0")
    case True
    then show ?thesis by simp
  next
    case False
    then have "j div 2 < j" "j div 2 < length xs" using less.prems by auto
    then have "key (xs ! 0) \<le> key (xs ! (j div 2))" using less.IH by simp
    moreover have "key (xs ! (j div 2)) \<le> key (xs ! j)"
      using assms(1) less.prems by (simp add: heap_ordered_def)
    ultimately show ?thesis by simp
  qed
qed

lemma length_insert_loop:
  assumes "Undefined \<notin> set xs" and "c < length xs"
    and "\<forall>i<length xs. i \<noteq> c \<longrightarrow> key (xs ! (i div 2)) \<le> key (xs ! i)"
    and "\<forall>i<length xs. i div 2 = c \<longrightarrow> key (xs ! (c div 2)) \<le> key (xs ! i)"
  shows "length (insert_loop xs c (c div 2)) = length xs"
  using insert_loop_order [OF assms] by (metis size_mset)

lemma insert_heap_ordered:
  assumes "heap_ordered (heap h)"
  shows "heap_ordered (heap (MinHeap_insert num h))
       \<and> mset (heap (MinHeap_insert num h)) = add_mset (Num num) (mset (heap h))
       \<and> length (heap (MinHeap_insert num h)) = Suc (length (heap h))"
proof -
  define xs where "xs = heap h @ [Num num]"
  define c where "c = length (heap h)"
  have ne: "heap h \<noteq> []" and c0: "0 < c"
    using assms by (auto simp: heap_ordered_def c_def)
  have a1: "Undefined \<notin> set xs" using assms by (simp add: heap_ordered_def xs_def)
  have a2: "c < length xs" by (simp add: xs_def c_def)
  have a3: "\<forall>i<length xs. i \<noteq> c \<longrightarrow> key (xs ! (i div 2)) \<le> key (xs ! i)"
  proof (intro allI impI)
    fix i assume "i < length xs" "i \<noteq> c"
    then have i: "i < length (heap h)" by (simp add: xs_def c_def)
    then have "i div 2 < length (heap h)" by simp
    then have "xs ! i = heap h ! i" "xs ! (i div 2) = heap h ! (i div 2)"
      using i by (simp_all add: xs_def nth_append)
    then show "key (xs ! (i div 2)) \<le> key (xs ! i)"
      using assms i by (simp add: heap_ordered_def)
  qed
  have a4: "\<forall>i<length xs. i div 2 = c \<longrightarrow> key (xs ! (c div 2)) \<le> key (xs ! i)"
  proof (intro allI impI)
    fix i assume "i < length xs" "i div 2 = c"
    then have "i < Suc c" "i div 2 = c" by (simp_all add: xs_def c_def)
    then have False using c0 by linarith
    then show "key (xs ! (c div 2)) \<le> key (xs ! i)" ..
  qed
  have eq: "heap (MinHeap_insert num h) = insert_loop xs c (c div 2)"
    by (simp add: MinHeap_insert_def Let_def xs_def c_def)
  have res: "mset (insert_loop xs c (c div 2)) = mset xs"
       "\<forall>i<length xs. key (insert_loop xs c (c div 2) ! (i div 2))
                          \<le> key (insert_loop xs c (c div 2) ! i)"
    using insert_loop_order [OF a1 a2 a3 a4] by simp_all
  have len: "length (insert_loop xs c (c div 2)) = length xs"
    using length_insert_loop [OF a1 a2 a3 a4] .
  have "Undefined \<notin> set (insert_loop xs c (c div 2))"
    using res(1) a1 by (metis set_mset_mset)
  moreover have "insert_loop xs c (c div 2) \<noteq> []" using len a2 by auto
  ultimately have "heap_ordered (insert_loop xs c (c div 2))"
    using res(2) len by (simp add: heap_ordered_def)
  then show ?thesis using eq res(1) len by (simp add: xs_def)
qed

lemma extract_heap_ordered:
  assumes "heap_ordered (heap h)"
  shows "\<exists>r h'. MinHeap_extract h = Some (r, h') \<and> heap_ordered (heap h')
           \<and> heap h' ! 0 = heap h ! 0
           \<and> set (tl (heap h')) \<subseteq> set (tl (heap h))
           \<and> length (heap h') = (if length (heap h) = 1 then 1 else length (heap h) - 1)"
proof -
  define xs where "xs = heap h"
  have ne: "xs \<noteq> []" and ud: "Undefined \<notin> set xs"
    and ord: "\<forall>i<length xs. key (xs ! (i div 2)) \<le> key (xs ! i)"
    using assms by (auto simp: heap_ordered_def xs_def)
  consider "length xs = 1" | "length xs = 2" | "3 \<le> length xs"
  proof -
    have "0 < length xs" using ne by simp
    then have "length xs = 1 \<or> length xs = 2 \<or> 3 \<le> length xs" by linarith
    then show ?thesis using that by blast
  qed
  then show ?thesis
  proof cases
    case 1
    then show ?thesis using assms by (simp add: MinHeap_extract_def xs_def)
  next
    case 2
    then obtain a b where ab: "xs = [a, b]"
      by (cases xs; cases "tl xs") auto
    have "heap_ordered [a]" using ud ab by (simp add: heap_ordered_def)
    then show ?thesis
      using ab by (simp add: MinHeap_extract_def xs_def [symmetric] js_pop_def js_get_def)
  next
    case 3
    have o: "\<forall>j<length xs. 1 < j \<longrightarrow> key (xs ! (j div 2)) \<le> key (xs ! j)"
      using ord by simp
    obtain zs where zs: "shiftDown_loop (js_set (butlast xs) 1 (last xs)) 1 = Some zs"
        "length zs = length xs - 1" "zs ! 0 = xs ! 0"
        "add_mset (xs ! 1) (mset (tl zs)) = mset (tl xs)"
        "\<forall>j<length zs. 1 < j \<longrightarrow> key (zs ! (j div 2)) \<le> key (zs ! j)"
      using extract_core [OF ud 3 o] by blast
    have sub: "set (tl zs) \<subseteq> set (tl xs)"
      using zs(4) by (metis set_mset_mset set_mset_add_mset_insert subset_insertI)
    have zne: "zs \<noteq> []" using zs(2) 3 by auto
    have tlsub: "set (tl xs) \<subseteq> set xs" using ne by (cases xs) auto
    have zset: "set zs \<subseteq> set xs"
    proof -
      have "set zs = insert (zs ! 0) (set (tl zs))" using zne by (cases zs) auto
      moreover have "xs ! 0 \<in> set xs" using ne by simp
      ultimately show ?thesis using sub tlsub zs(3) by auto
    qed
    have zud: "Undefined \<notin> set zs" using zset ud by auto
    have zord: "\<forall>j<length zs. key (zs ! (j div 2)) \<le> key (zs ! j)"
    proof (intro allI impI)
      fix j assume j: "j < length zs"
      consider "j = 0" | "j = 1" | "1 < j" by linarith
      then show "key (zs ! (j div 2)) \<le> key (zs ! j)"
      proof cases
        case 1
        then show ?thesis by simp
      next
        case 2
        have "zs ! 1 \<in> set xs" using zset j 2 by (metis nth_mem subsetD)
        then obtain k where "k < length xs" "xs ! k = zs ! 1"
          by (metis in_set_conv_nth)
        then have "key (xs ! 0) \<le> key (zs ! 1)"
          using heap_ordered_root [OF assms [unfolded xs_def [symmetric]]] by metis
        then show ?thesis using 2 zs(3) by simp
      next
        case 3
        then show ?thesis using zs(5) j by simp
      qed
    qed
    have ho: "heap_ordered zs" using zne zud zord by (simp add: heap_ordered_def)
    have l1: "length xs \<noteq> 1" "length (butlast xs) \<noteq> 1" using 3 by auto
    have "MinHeap_extract h = Some (xs ! 1, h\<lparr>heap := zs\<rparr>)"
      using l1 ne zs(1) 3
      by (simp add: MinHeap_extract_def xs_def [symmetric] js_pop_def js_get_def
            MinHeap_shiftDown_def)
    then show ?thesis
      using ho zs(2,3) sub l1 by (simp add: xs_def [symmetric])
  qed
qed

lemma is_number_defined: "is_number v \<Longrightarrow> v \<noteq> Undefined"
  by (cases v) simp_all

lemma heap_invariant_facts:
  assumes "heap_invariant h"
  shows "heap h \<noteq> []" and "heap h ! 0 = Null" and "Undefined \<notin> set (heap h)"
    and "\<forall>j<length (heap h). 1 < j \<longrightarrow> key (heap h ! (j div 2)) \<le> key (heap h ! j)"
    and "\<forall>v\<in>set (tl (heap h)). is_number v"
proof -
  show ne: "heap h \<noteq> []" using assms by (simp add: heap_invariant_def)
  then obtain vs where xs: "heap h = hd (heap h) # vs" by (cases "heap h") auto
  show z: "heap h ! 0 = Null" using assms ne by (simp add: heap_invariant_def hd_conv_nth)
  show nums: "\<forall>v\<in>set (tl (heap h)). is_number v"
    using assms by (simp add: heap_invariant_def stored_def list_all_iff)
  have "set (heap h) = insert Null (set (tl (heap h)))"
    using ne z by (cases "heap h") auto
  then show "Undefined \<notin> set (heap h)"
    using nums is_number_defined by auto
  show "\<forall>j<length (heap h). 1 < j \<longrightarrow> key (heap h ! (j div 2)) \<le> key (heap h ! j)"
  proof (intro allI impI)
    fix j assume j: "j < length (heap h)" "1 < j"
    then have "j \<in> set [2..<length (heap h)]" by simp
    then have "js_le (js_get (heap h) (j div 2)) (js_get (heap h) j)"
      using assms by (simp add: heap_invariant_def list_all_iff)
    then show "key (heap h ! (j div 2)) \<le> key (heap h ! j)"
      using j by (simp add: js_le_iff js_get_def split: if_splits)
  qed
qed

lemma heap_invariantI:
  assumes "xs \<noteq> []" and "xs ! 0 = Null" and "\<forall>v\<in>set (tl xs). is_number v"
    and "\<forall>j<length xs. 1 < j \<longrightarrow> key (xs ! (j div 2)) \<le> key (xs ! j)"
  shows "heap_invariant (h\<lparr>heap := xs\<rparr>)"
proof -
  have "set xs = insert Null (set (tl xs))"
    using assms(1,2) by (cases xs) auto
  then have ud: "Undefined \<notin> set xs"
    using assms(3) is_number_defined by auto
  have "js_le (js_get xs (j div 2)) (js_get xs j)" if "j \<in> set [2..<length xs]" for j
  proof -
    have j: "j < length xs" "1 < j" "j div 2 < length xs" using that by auto
    then have "xs ! j \<noteq> Undefined" "xs ! (j div 2) \<noteq> Undefined"
      using ud by (metis nth_mem)+
    then show ?thesis using assms(4) j by (simp add: js_le_iff js_get_def)
  qed
  then show ?thesis
    using assms(1,2,3) by (simp add: heap_invariant_def stored_def list_all_iff hd_conv_nth)
qed

lemma extract_invariant:
  assumes "heap_invariant h" and "0 < MinHeap_size h"
  shows "\<exists>m h'. MinHeap_extract h = Some (m, h') \<and> m \<in> set (stored h)
           \<and> (\<forall>v\<in>set (stored h). js_le m v)
           \<and> MinHeap_size h' = MinHeap_size h - 1 \<and> heap_invariant h'
           \<and> mset (stored h) = add_mset m (mset (stored h'))"
proof -
  define xs where "xs = heap h"
  note f = heap_invariant_facts [OF assms(1), folded xs_def]
  have l2: "2 \<le> length xs" using assms(2) by (simp add: MinHeap_size_def xs_def)
  have m_in: "xs ! 1 \<in> set (tl xs)"
    using l2 f(1) by (cases xs; cases "tl xs") auto
  have m_min: "\<forall>v\<in>set (tl xs). js_le (xs ! 1) v"
  proof
    fix v assume v: "v \<in> set (tl xs)"
    then obtain k where k: "k < length (tl xs)" "tl xs ! k = v"
      by (metis in_set_conv_nth)
    then have "Suc k < length xs" "xs ! Suc k = v"
      using f(1) by (simp_all add: nth_tl)
    then have "key (xs ! 1) \<le> key v"
      using root_min [OF f(4), of "Suc k"] by simp
    moreover have "v \<noteq> Undefined" "xs ! 1 \<noteq> Undefined"
      using f(5) v m_in is_number_defined by auto
    ultimately show "js_le (xs ! 1) v" by (simp add: js_le_iff)
  qed
  consider "length xs = 2" | "3 \<le> length xs" using l2 by linarith
  then show ?thesis
  proof cases
    case 1
    then obtain a b where ab: "xs = [a, b]"
      by (cases xs; cases "tl xs") auto
    then have a: "a = Null" using f(2) by simp
    have "heap_invariant (h\<lparr>heap := [Null]\<rparr>)"
      by (rule heap_invariantI) simp_all
    moreover have "MinHeap_extract h = Some (b, h\<lparr>heap := [Null]\<rparr>)"
      using ab a by (simp add: MinHeap_extract_def xs_def [symmetric] js_pop_def js_get_def)
    ultimately show ?thesis
      using m_in m_min ab
      by (simp add: stored_def MinHeap_size_def xs_def [symmetric])
  next
    case 2
    obtain zs where zs: "shiftDown_loop (js_set (butlast xs) 1 (last xs)) 1 = Some zs"
        "length zs = length xs - 1" "zs ! 0 = xs ! 0"
        "add_mset (xs ! 1) (mset (tl zs)) = mset (tl xs)"
        "\<forall>j<length zs. 1 < j \<longrightarrow> key (zs ! (j div 2)) \<le> key (zs ! j)"
      using extract_core [OF f(3) 2 f(4)] by blast
    have sub: "set (tl zs) \<subseteq> set (tl xs)"
      using zs(4) by (metis set_mset_mset set_mset_add_mset_insert subset_insertI)
    have zne: "zs \<noteq> []" using zs(2) 2 by auto
    have inv: "heap_invariant (h\<lparr>heap := zs\<rparr>)"
      using zne zs(3,5) f(2,5) sub by (intro heap_invariantI) auto
    have l1: "length xs \<noteq> 1" "length (butlast xs) \<noteq> 1" using 2 by auto
    have "MinHeap_extract h = Some (xs ! 1, h\<lparr>heap := zs\<rparr>)"
      using l1 f(1) zs(1) 2
      by (simp add: MinHeap_extract_def xs_def [symmetric] js_pop_def js_get_def
            MinHeap_shiftDown_def)
    then show ?thesis
      using inv m_in m_min zs(2,4)
      by (simp add: stored_def MinHeap_size_def xs_def [symmetric])
  qed
qed

lemma heap_ordered_new: "heap_ordered (heap new_MinHeap)"
  by (simp add: heap_ordered_def new_MinHeap_def)

lemma calls_heap_ordered:
  assumes "heap_ordered (heap h)"
  shows "\<exists>h'. MinHeap_calls cs h = Some h' \<and> heap_ordered (heap h')
           \<and> MinHeap_size h' + successful_extracts cs h = MinHeap_size h + inserts cs"
  using assms
proof (induction cs arbitrary: h)
  case Nil
  then show ?case by simp
next
  case (Cons c cs)
  show ?case
  proof (cases c)
    case (Insert num)
    have o: "heap_ordered (heap (MinHeap_insert num h))"
      and l: "length (heap (MinHeap_insert num h)) = Suc (length (heap h))"
      using insert_heap_ordered [OF Cons.prems] by simp_all
    have "heap h \<noteq> []" using Cons.prems by (simp add: heap_ordered_def)
    then have "MinHeap_size (MinHeap_insert num h) = Suc (MinHeap_size h)"
      using l by (simp add: MinHeap_size_def)
    then show ?thesis
      using Cons.IH [OF o] Insert by auto
  next
    case Extract
    obtain r h' where e: "MinHeap_extract h = Some (r, h')" "heap_ordered (heap h')"
        "length (heap h') = (if length (heap h) = 1 then 1 else length (heap h) - 1)"
      using extract_heap_ordered [OF Cons.prems] by blast
    have "heap h \<noteq> []" using Cons.prems by (simp add: heap_ordered_def)
    then have "0 < length (heap h)" by simp
    then have "length (heap h') - 1 + (if length (heap h) = 1 then 0 else 1)
                = length (heap h) - 1"
      unfolding e(3) by presburger
    then have "MinHeap_size h' + (if length (heap h) = 1 then 0 else 1) = MinHeap_size h"
      by (simp only: MinHeap_size_def)
    then show ?thesis
      using Cons.IH [OF e(2)] Extract e(1) by auto
  next
    case Top
    then show ?thesis
      using Cons.IH [OF Cons.prems] by (simp add: MinHeap_top_def)
  qed
qed

subsection \<open>Heap order after every call\<close>



subsection \<open>Extracting from a well-formed heap\<close>

text \<open>
  On a non-empty heap that satisfies the data model (\<open>heap_invariant\<close>), \<open>extract()\<close>
  returns; its result is one of the stored values and is less than or equal to every
  stored value; the stored values afterwards are the former ones without the result; the
  size has decreased by exactly 1; and the heap still satisfies the data model, heap
  order included.  And after any sequence of calls on a fresh heap, the size plus the
  number of successful extracts equals the number of inserts: with \<open>k\<close> inserts and \<open>m\<close>
  successful extracts, the size is \<open>k - m\<close>.  The data model is a hypothesis here:
  the states that \<open>insert\<close> reaches with negative numbers do not satisfy it.
\<close>

lemma extract_on_well_formed_heap:
  "(heap_invariant h \<and> 0 < MinHeap_size h \<longrightarrow>
      (\<exists>m h'. MinHeap_extract h = Some (m, h') \<and> m \<in> set (stored h)
           \<and> (\<forall>v\<in>set (stored h). js_le m v)
           \<and> mset (stored h) = add_mset m (mset (stored h'))
           \<and> MinHeap_size h' = MinHeap_size h - 1 \<and> heap_invariant h'))
   \<and> (\<exists>h'. MinHeap_calls cs new_MinHeap = Some h'
           \<and> MinHeap_size h' + successful_extracts cs new_MinHeap = inserts cs)"
proof -
  have "\<exists>h'. MinHeap_calls cs new_MinHeap = Some h'
           \<and> MinHeap_size h' + successful_extracts cs new_MinHeap = inserts cs"
    using calls_heap_ordered [OF heap_ordered_new, of cs]
    by (auto simp: MinHeap_size_def new_MinHeap_def)
  then show ?thesis using extract_invariant [of h] by blast
qed

lemma extract_on_well_formed_heap_example:
  "heap_invariant \<lparr>heap = [Null, Num (- 5), Num 3, Num 4, Num 7]\<rparr>
   \<and> 0 < MinHeap_size \<lparr>heap = [Null, Num (- 5), Num 3, Num 4, Num 7]\<rparr>
   \<and> MinHeap_extract \<lparr>heap = [Null, Num (- 5), Num 3, Num 4, Num 7]\<rparr>
       = Some (Num (- 5), \<lparr>heap = [Null, Num 3, Num 7, Num 4]\<rparr>)
   \<and> heap_invariant \<lparr>heap = [Null, Num 3, Num 7, Num 4]\<rparr>
   \<and> MinHeap_calls [Insert 5, Extract, Extract, Insert 3, Insert 1, Extract] new_MinHeap
       = Some \<lparr>heap = [Null, Num 3]\<rparr>
   \<and> successful_extracts [Insert 5, Extract, Extract, Insert 3, Insert 1, Extract] new_MinHeap = 2
   \<and> inserts [Insert 5, Extract, Extract, Insert 3, Insert 1, Extract] = 3"
proof -
  have i: "heap_invariant \<lparr>heap = [Null, Num (- 5), Num 3, Num 4, Num 7]\<rparr>"
    by code_simp
  have s: "0 < MinHeap_size \<lparr>heap = [Null, Num (- 5), Num 3, Num 4, Num 7]\<rparr>"
    by (simp add: MinHeap_size_def)
  have e: "MinHeap_extract \<lparr>heap = [Null, Num (- 5), Num 3, Num 4, Num 7]\<rparr>
       = Some (Num (- 5), \<lparr>heap = [Null, Num 3, Num 7, Num 4]\<rparr>)"
    by code_simp
  have c: "MinHeap_calls [Insert 5, Extract, Extract, Insert 3, Insert 1, Extract] new_MinHeap
       = Some \<lparr>heap = [Null, Num 3]\<rparr>"
    by code_simp
  have n: "successful_extracts [Insert 5, Extract, Extract, Insert 3, Insert 1, Extract] new_MinHeap = 2"
    by code_simp
  have k: "inserts [Insert 5, Extract, Extract, Insert 3, Insert 1, Extract] = 3"
    by simp
  show ?thesis
    using i s e c n k
      extract_on_well_formed_heap
        [of "\<lparr>heap = [Null, Num (- 5), Num 3, Num 4, Num 7]\<rparr>"
            "[Insert 5, Extract, Extract, Insert 3, Insert 1, Extract]"]
    by auto
qed

subsection \<open>The sentinel slot\<close>

lemma insert_loop_sentinel:
  assumes "xs ! 0 = Null" and "\<forall>i<length xs. 0 < i \<longrightarrow> (\<exists>n\<ge>0. xs ! i = Num n)"
    and "c < length xs"
  shows "insert_loop xs c (c div 2) ! 0 = Null"
  using assms
proof (induction c arbitrary: xs rule: less_induct)
  case (less c)
  let ?p = "c div 2"
  have pl: "?p < length xs" using less.prems(3) by simp
  show ?case
  proof (cases "js_lt (js_get xs c) (js_get xs ?p)")
    case False
    then show ?thesis using less.prems(1) by (simp add: insert_loop.simps [of xs c ?p])
  next
    case True
    then have lt: "js_lt (xs ! c) (xs ! ?p)"
      using less.prems(3) pl by (simp add: js_get_def)
    then have cp: "?p \<noteq> c" by (auto simp: js_lt_iff)
    then have c0: "0 < c" and pc: "?p < c" by auto
    have p0: "0 < ?p"
    proof (rule ccontr)
      assume "\<not> 0 < ?p"
      then have "xs ! ?p = Null" using less.prems(1) by simp
      moreover obtain n where "0 \<le> n" "xs ! c = Num n"
        using less.prems(2,3) c0 by blast
      ultimately show False using lt by (simp add: js_lt_def)
    qed
    define ys where "ys = MinHeap_swap xs c ?p"
    have ys: "ys = xs[c := xs ! ?p, ?p := xs ! c]"
      using less.prems(3) pl by (simp add: ys_def swap_in_range)
    have a1: "ys ! 0 = Null" using less.prems(1) c0 p0 by (simp add: ys)
    have a2: "\<forall>i<length ys. 0 < i \<longrightarrow> (\<exists>n\<ge>0. ys ! i = Num n)"
    proof (intro allI impI)
      fix i assume i: "i < length ys" "0 < i"
      have "ys ! i = xs ! ?p \<or> ys ! i = xs ! c \<or> ys ! i = xs ! i"
        using i(1) less.prems(3) pl
        by (cases "i = ?p"; cases "i = c") (simp_all add: ys)
      then show "\<exists>n\<ge>0. ys ! i = Num n"
        using less.prems(2,3) pl c0 p0 i by (metis length_list_update ys)
    qed
    have a3: "?p < length ys" using pl by (simp add: ys)
    have "insert_loop xs c ?p = insert_loop ys ?p (?p div 2)"
      using True by (simp add: insert_loop.simps [of xs c ?p] ys_def)
    then show ?thesis using less.IH [OF pc a1 a2 a3] by simp
  qed
qed

lemma insert_sentinel_ok:
  assumes "heap_ordered (heap h)" and "sentinel_ok (heap h)" and "0 \<le> num"
  shows "sentinel_ok (heap (MinHeap_insert num h))"
proof -
  define xs where "xs = heap h @ [Num num]"
  define zs where "zs = heap (MinHeap_insert num h)"
  have ne: "heap h \<noteq> []" and z: "heap h ! 0 = Null"
    and nn: "\<forall>v\<in>set (tl (heap h)). \<exists>n\<ge>0. v = Num n"
    using assms(2) by (auto simp: sentinel_ok_def)
  have x0: "xs ! 0 = Null" using ne z by (simp add: xs_def nth_append)
  have xn: "\<forall>i<length xs. 0 < i \<longrightarrow> (\<exists>n\<ge>0. xs ! i = Num n)"
  proof (intro allI impI)
    fix i assume i: "i < length xs" "0 < i"
    have "set (tl xs) = insert (Num num) (set (tl (heap h)))"
      using ne by (simp add: xs_def)
    moreover have "xs ! i \<in> set (tl xs)"
      using i by (cases xs; cases i) auto
    ultimately show "\<exists>n\<ge>0. xs ! i = Num n" using nn assms(3) by auto
  qed
  have eq: "zs = insert_loop xs (length (heap h)) (length (heap h) div 2)"
    by (simp add: zs_def MinHeap_insert_def Let_def xs_def)
  have z0: "zs ! 0 = Null"
    unfolding eq by (rule insert_loop_sentinel [OF x0 xn]) (simp add: xs_def)
  have ms: "mset zs = add_mset (Num num) (mset (heap h))"
    and len: "length zs = Suc (length (heap h))"
    using insert_heap_ordered [OF assms(1), of num] by (simp_all add: zs_def)
  have zne: "zs \<noteq> []" using len by auto
  have "add_mset (zs ! 0) (mset (tl zs)) = add_mset (Num num) (add_mset (heap h ! 0) (mset (tl (heap h))))"
    using ms mset_tl [OF zne] mset_tl [OF ne] by simp
  then have "mset (tl zs) = add_mset (Num num) (mset (tl (heap h)))"
    using z0 z by simp
  then have "set (tl zs) = insert (Num num) (set (tl (heap h)))"
    by (metis set_mset_mset set_mset_add_mset_insert)
  then show ?thesis
    using zne z0 nn assms(3) by (auto simp: sentinel_ok_def zs_def [symmetric])
qed

lemma calls_sentinel_ok:
  assumes "heap_ordered (heap h)" and "sentinel_ok (heap h)"
    and "\<forall>num. Insert num \<in> set cs \<longrightarrow> 0 \<le> num"
  shows "\<exists>h'. MinHeap_calls cs h = Some h' \<and> sentinel_ok (heap h')"
  using assms
proof (induction cs arbitrary: h)
  case Nil
  then show ?case by simp
next
  case (Cons c cs)
  have rest: "\<forall>num. Insert num \<in> set cs \<longrightarrow> 0 \<le> num" using Cons.prems(3) by simp
  show ?case
  proof (cases c)
    case (Insert num)
    then have "0 \<le> num" using Cons.prems(3) by simp
    then have "sentinel_ok (heap (MinHeap_insert num h))"
      using insert_sentinel_ok Cons.prems(1,2) by simp
    moreover have "heap_ordered (heap (MinHeap_insert num h))"
      using insert_heap_ordered [OF Cons.prems(1)] by simp
    ultimately show ?thesis using Cons.IH rest Insert by simp
  next
    case Extract
    obtain r h' where e: "MinHeap_extract h = Some (r, h')" "heap_ordered (heap h')"
        "heap h' ! 0 = heap h ! 0" "set (tl (heap h')) \<subseteq> set (tl (heap h))"
      using extract_heap_ordered [OF Cons.prems(1)] by blast
    have "heap h' \<noteq> []" using e(2) by (simp add: heap_ordered_def)
    then have "sentinel_ok (heap h')"
      using Cons.prems(2) e(3,4) by (auto simp: sentinel_ok_def)
    then show ?thesis using Cons.IH [OF e(2) _ rest] Extract e(1) by simp
  next
    case Top
    then show ?thesis
      using Cons.IH [OF Cons.prems(1,2) rest] by (simp add: MinHeap_top_def)
  qed
qed

lemma nonnegative_inserts_iff:
  "nonnegative_inserts cs \<longleftrightarrow> (\<forall>num. Insert num \<in> set cs \<longrightarrow> 0 \<le> num)"
  by (induction cs rule: nonnegative_inserts.induct) auto

text \<open>
  Claim C9.  When every number passed to \<open>insert\<close> is at least 0, then after
  construction and after each call of a sequence of \<open>top\<close>, \<open>insert\<close> and \<open>extract\<close> calls
  (that is, after every prefix \<open>take n cs\<close> of the sequence) every call has returned and
  index 0 of the backing array holds \<open>null\<close>; so no stored number is at index 0.
\<close>

theorem sentinel_slot_holds_null:
  assumes "nonnegative_inserts cs"
  shows "\<exists>h. MinHeap_calls (take n cs) new_MinHeap = Some h \<and> js_get (heap h) 0 = Null"
proof -
  have "\<forall>num. Insert num \<in> set (take n cs) \<longrightarrow> 0 \<le> num"
    using assms by (meson in_set_takeD nonnegative_inserts_iff)
  moreover have "sentinel_ok (heap new_MinHeap)"
    by (simp add: sentinel_ok_def new_MinHeap_def)
  ultimately obtain h where "MinHeap_calls (take n cs) new_MinHeap = Some h" "sentinel_ok (heap h)"
    using calls_sentinel_ok [OF heap_ordered_new] by blast
  then show ?thesis by (auto simp: sentinel_ok_def js_get_def)
qed

theorem sentinel_slot_holds_null_witness:
  "nonnegative_inserts [Insert 5, Top, Insert 0, Extract, Insert 3]
   \<and> MinHeap_calls (take 4 [Insert 5, Top, Insert 0, Extract, Insert 3]) new_MinHeap
       = Some \<lparr>heap = [Null, Num 5]\<rparr>
   \<and> js_get (heap \<lparr>heap = [Null, Num 5]\<rparr>) 0 = Null"
proof -
  have h: "nonnegative_inserts [Insert 5, Top, Insert 0, Extract, Insert 3]"
    by simp
  have e: "MinHeap_calls (take 4 [Insert 5, Top, Insert 0, Extract, Insert 3]) new_MinHeap
       = Some \<lparr>heap = [Null, Num 5]\<rparr>"
    by code_simp
  show ?thesis
    using h e sentinel_slot_holds_null [OF h, of 4] by simp
qed

subsection \<open>The sift-down loop and its specification\<close>

lemma smallest_child_cases:
  "smallest_child xs i =
     (if i * 2 < length xs then
        Some (if i * 2 + 1 < length xs \<and> js_lt (js_get xs (i * 2 + 1)) (js_get xs (i * 2))
              then i * 2 + 1 else i * 2)
      else None)"
  by (simp add: smallest_child_def in_bounds_children_def)

lemma shiftDown_body:
  "(let idxOfLeftChild' = idxOfLeftChild i in
      if idxOfLeftChild' < length xs then
        let idxOfRightChild' = idxOfRightChild i;
            isRightChildInBounds = idxOfRightChild' < length xs;
            isRightChildSmaller =
              (isRightChildInBounds \<and>
               js_lt (js_get xs idxOfRightChild') (js_get xs idxOfLeftChild'));
            idxOfSmallestChild =
              (if isRightChildSmaller then idxOfRightChild' else idxOfLeftChild');
            isParentSmallerOrEqual =
              js_le (js_get xs i) (js_get xs idxOfSmallestChild)
        in if isParentSmallerOrEqual then Some xs
           else f (MinHeap_swap xs i idxOfSmallestChild) idxOfSmallestChild
      else Some xs)
   = (case smallest_child xs i of
        None \<Rightarrow> Some xs
      | Some c \<Rightarrow>
          if js_le (js_get xs i) (js_get xs c) then Some xs
          else f (MinHeap_swap xs i c) c)"
  by (simp add: smallest_child_cases Let_def idxOfLeftChild_def idxOfRightChild_def)

lemma shiftDown_loop_unfold:
  "shiftDown_loop xs i =
     (case smallest_child xs i of
        None \<Rightarrow> Some xs
      | Some c \<Rightarrow>
          if js_le (js_get xs i) (js_get xs c) then Some xs
          else shiftDown_loop (MinHeap_swap xs i c) c)"
  by (subst shiftDown_loop.simps) (rule shiftDown_body)

lemma shiftDown_loop_le_spec:
  assumes "shiftDown_loop xs0 i0 = Some ys0"
  shows "sift_down_spec xs0 i0 = Some ys0"
proof (rule shiftDown_loop.raw_induct
         [where P = "\<lambda>xs i ys. sift_down_spec xs i = Some ys", OF _ assms], goal_cases)
  case step: (1 f xs i ys)
  note body = step(2) [unfolded shiftDown_body]
  show ?case
  proof (cases "smallest_child xs i")
    case None
    then show ?thesis using body by (subst sift_down_spec.simps) simp
  next
    case (Some c)
    show ?thesis
    proof (cases "js_le (js_get xs i) (js_get xs c)")
      case True
      then show ?thesis using body Some by (subst sift_down_spec.simps) simp
    next
      case False
      then have "f (MinHeap_swap xs i c) c = Some ys"
        using body Some by simp
      then have "sift_down_spec (MinHeap_swap xs i c) c = Some ys"
        by (rule step(1))
      then show ?thesis using Some False by (subst sift_down_spec.simps) simp
    qed
  qed
qed

lemma spec_le_shiftDown_loop:
  assumes "sift_down_spec xs0 i0 = Some ys0"
  shows "shiftDown_loop xs0 i0 = Some ys0"
proof (rule sift_down_spec.raw_induct
         [where P = "\<lambda>xs i ys. shiftDown_loop xs i = Some ys", OF _ assms], goal_cases)
  case step: (1 f xs i ys)
  show ?case
  proof (cases "smallest_child xs i")
    case None
    then show ?thesis using step(2) by (subst shiftDown_loop_unfold) simp
  next
    case (Some c)
    show ?thesis
    proof (cases "js_le (js_get xs i) (js_get xs c)")
      case True
      then show ?thesis using step(2) Some by (subst shiftDown_loop_unfold) simp
    next
      case False
      then have "f (MinHeap_swap xs i c) c = Some ys"
        using step(2) Some by simp
      then have "shiftDown_loop (MinHeap_swap xs i c) c = Some ys"
        by (rule step(1))
      then show ?thesis using Some False by (subst shiftDown_loop_unfold) simp
    qed
  qed
qed

text \<open>
  Claim C6.  The sift-down loop of the source computes, from every array and every node
  index, exactly what the loop of the specification computes (the same array when it
  returns, and it returns in exactly the same cases): the right child is compared only
  when it is within bounds, the node is swapped with the smaller in-bounds child, the
  left child being chosen unless the right one is present and strictly smaller, and the
  loop stops exactly when the node has no child or is less than or equal to the chosen
  child.  \<open>shiftDown\<close> runs this loop from index 1.
\<close>

theorem shiftDown_follows_spec:
  "shiftDown_loop xs i = sift_down_spec xs i
   \<and> MinHeap_shiftDown h = map_option (\<lambda>xs. h\<lparr>heap := xs\<rparr>) (sift_down_spec (heap h) 1)"
proof -
  have "shiftDown_loop xs i = sift_down_spec xs i" for xs i
  proof (cases "shiftDown_loop xs i")
    case None
    then show ?thesis
      using spec_le_shiftDown_loop [of xs i] by (cases "sift_down_spec xs i") auto
  next
    case (Some ys)
    then show ?thesis using shiftDown_loop_le_spec by simp
  qed
  then show ?thesis by (simp add: MinHeap_shiftDown_def)
qed

theorem shiftDown_follows_spec_witness:
  "shiftDown_loop [Null, Num 7, Num 3, Num 2, Num 5, Num 8, Num 23, Num 3] 1
     = Some [Null, Num 2, Num 3, Num 3, Num 5, Num 8, Num 23, Num 7]
   \<and> sift_down_spec [Null, Num 7, Num 3, Num 2, Num 5, Num 8, Num 23, Num 3] 1
     = Some [Null, Num 2, Num 3, Num 3, Num 5, Num 8, Num 23, Num 7]
   \<and> smallest_child [Null, Num 7, Num 3, Num 3] 1 = Some 2
   \<and> smallest_child [Null, Num 7, Num 3] 1 = Some 2
   \<and> smallest_child [Null, Num 7] 1 = None"
proof -
  have e: "shiftDown_loop [Null, Num 7, Num 3, Num 2, Num 5, Num 8, Num 23, Num 3] 1
     = Some [Null, Num 2, Num 3, Num 3, Num 5, Num 8, Num 23, Num 7]"
    by code_simp
  have c: "smallest_child [Null, Num 7, Num 3, Num 3] 1 = Some 2"
      "smallest_child [Null, Num 7, Num 3] 1 = Some 2"
      "smallest_child [Null, Num 7] 1 = None"
    by code_simp+
  show ?thesis
    using e c
      shiftDown_follows_spec
        [of "[Null, Num 7, Num 3, Num 2, Num 5, Num 8, Num 23, Num 3]" 1 new_MinHeap]
    by simp
qed


subsection \<open>The queues\<close>

lemma Queue_calls_Dequeue:
  "Queue_calls (Dequeue # cs) q =
     (fst (Queue_dequeue q) # fst (Queue_calls cs (snd (Queue_dequeue q))),
      snd (Queue_calls cs (snd (Queue_dequeue q))))"
  by (simp split: prod.splits)

lemma Queue_calls_fifo:
  "dequeued (fst (Queue_calls cs q)) @ items (snd (Queue_calls cs q)) = items q @ enqueued cs"
proof (induction cs arbitrary: q)
  case Nil
  then show ?case by simp
next
  case (Cons c cs)
  show ?case
  proof (cases c)
    case (Enqueue item)
    then show ?thesis
      using Cons.IH [of "snd (Queue_enqueue item q)"]
      by (simp add: Queue_enqueue_def Let_def)
  next
    case Dequeue
    show ?thesis
    proof (cases "items q")
      case Nil
      then have "Queue_dequeue q = (None, q)" by (simp add: Queue_dequeue_def)
      then show ?thesis
        using Cons.IH [of q] Nil Dequeue by (simp add: Queue_calls_Dequeue del: Queue_calls.simps)
    next
      case (Cons x rest)
      then have "Queue_dequeue q = (Some x, q\<lparr>items := rest\<rparr>)"
        by (simp add: Queue_dequeue_def)
      then show ?thesis
        using Cons.IH [of "q\<lparr>items := rest\<rparr>"] Cons Dequeue
        by (simp add: Queue_calls_Dequeue del: Queue_calls.simps)
    qed
  qed
qed

lemma chain_bound: "chain st p as \<Longrightarrow> a \<in> set as \<Longrightarrow> a < length st"
  by (induction as arbitrary: p) auto

lemma chain_append_store: "chain st p as \<Longrightarrow> chain (st @ [n]) p as"
  by (induction as arbitrary: p) (auto simp: nth_append)

lemma chain_link_last:
  assumes "chain st p as" and "as \<noteq> []" and "distinct as" and "b < length st"
    and "b \<notin> set as" and "next_node (st ! b) = None"
  shows "chain (st[last as := (st ! last as)\<lparr>next_node := Some b\<rparr>]) p (as @ [b])"
  using assms
proof (induction as arbitrary: p)
  case Nil
  then show ?case by simp
next
  case (Cons a as)
  show ?case
  proof (cases "as = []")
    case True
    then show ?thesis using Cons.prems by auto
  next
    case False
    then have la: "last (a # as) = last as" by simp
    have "last as \<in> set as" using False by simp
    then have ne: "last as \<noteq> a" using Cons.prems(3) by auto
    have "chain (st[last as := (st ! last as)\<lparr>next_node := Some b\<rparr>]) (next_node (st ! a)) (as @ [b])"
      using Cons.IH [OF _ False] Cons.prems by simp
    then show ?thesis using Cons.prems ne by (simp add: la)
  qed
qed

lemma chain_walk:
  "chain st p as \<Longrightarrow> length as \<le> n \<Longrightarrow> walk n st p = map (\<lambda>a. data (st ! a)) as"
proof (induction n st p arbitrary: as rule: walk.induct)
  case (1 st p)
  then show ?case by simp
next
  case (2 n st)
  then show ?case by (cases as) simp_all
next
  case (3 n st a)
  then show ?case by (cases as) auto
qed

lemma linked_items:
  assumes "linked q as"
  shows "LinkedListQueue_items q = node_data q as"
proof -
  have "set as \<subseteq> {..<length (nodes q)}"
    using assms chain_bound by (fastforce simp: linked_def)
  then have "card (set as) \<le> card {..<length (nodes q)}"
    by (intro card_mono) simp_all
  then have "length as \<le> length (nodes q)"
    using assms by (simp add: linked_def distinct_card)
  moreover have "chain (nodes q) (head q) as" using assms by (simp add: linked_def)
  ultimately have "walk (length (nodes q)) (nodes q) (head q) = map (\<lambda>a. data (nodes q ! a)) as"
    by (rule chain_walk [rotated])
  then show ?thesis
    by (simp add: LinkedListQueue_items_def node_data_def)
qed

lemma enqueue_linked:
  assumes "linked q as"
  shows "\<exists>n q'. LinkedListQueue_enqueue val q = Inr (n, q')
           \<and> linked q' (as @ [length (nodes q)])
           \<and> node_data q' (as @ [length (nodes q)]) = node_data q as @ [val]"
proof -
  let ?b = "length (nodes q)"
  let ?st = "nodes q @ [\<lparr>data = val, next_node = None\<rparr>]"
  have ch: "chain (nodes q) (head q) as" and di: "distinct as"
    and tl: "tail q = (if as = [] then None else Some (last as))"
    using assms by (simp_all add: linked_def)
  have bnd: "\<And>a. a \<in> set as \<Longrightarrow> a < ?b" using ch chain_bound by fastforce
  then have fresh: "?b \<notin> set as" by auto
  show ?thesis
  proof (cases "as = []")
    case True
    then have "head q = None" using ch by simp
    then show ?thesis
      using True
      by (simp add: LinkedListQueue_enqueue_def LinkedListQueue_isEmpty_def Let_def
            linked_def node_data_def)
  next
    case False
    then have hd: "head q \<noteq> None" using ch by (cases as) auto
    have t: "tail q = Some (last as)" using tl False by simp
    have lb: "last as < ?b" using bnd False by simp
    have ch2: "chain (?st[last as := (?st ! last as)\<lparr>next_node := Some ?b\<rparr>]) (head q) (as @ [?b])"
      by (rule chain_link_last [OF chain_append_store [OF ch] False di _ fresh]) simp_all
    have dat: "map (\<lambda>a. data ((?st[last as := (?st ! last as)\<lparr>next_node := Some ?b\<rparr>]) ! a)) as
             = map (\<lambda>a. data (nodes q ! a)) as"
      using bnd lb by (auto simp: nth_list_update nth_append)
    have "data ((?st[last as := (?st ! last as)\<lparr>next_node := Some ?b\<rparr>]) ! ?b) = val"
      using lb by (simp add: nth_list_update nth_append)
    then show ?thesis
      using hd t lb ch2 di fresh dat
      by (auto simp: LinkedListQueue_enqueue_def LinkedListQueue_isEmpty_def Let_def
            linked_def node_data_def)
  qed
qed

lemma dequeue_linked_empty:
  assumes "linked q []"
  shows "LinkedListQueue_dequeue q = Inr (None, q)"
  using assms by (simp add: linked_def LinkedListQueue_dequeue_def)

lemma dequeue_linked:
  assumes "linked q (a # as)"
  shows "\<exists>q'. LinkedListQueue_dequeue q = Inr (Some (data (nodes q ! a)), q')
           \<and> linked q' as \<and> node_data q' as = node_data q as"
proof -
  have h: "head q = Some a" and al: "a < length (nodes q)"
    and ch: "chain (nodes q) (next_node (nodes q ! a)) as" and di: "distinct as"
    and tl: "tail q = Some (last (a # as))"
    using assms by (simp_all add: linked_def)
  show ?thesis
  proof (cases "as = []")
    case True
    then have "next_node (nodes q ! a) = None" using ch by simp
    then show ?thesis
      using h al True
      by (simp add: LinkedListQueue_dequeue_def Let_def linked_def node_data_def)
  next
    case False
    then have "next_node (nodes q ! a) \<noteq> None" using ch by (cases as) auto
    then show ?thesis
      using h al False ch di tl
      by (simp add: LinkedListQueue_dequeue_def Let_def linked_def node_data_def)
  qed
qed

lemma LinkedListQueue_calls_refine:
  assumes "linked l as" and "node_data l as = items q"
  shows "\<exists>l' as'. LinkedListQueue_calls cs l = Inr (fst (Queue_calls cs q), l')
           \<and> linked l' as' \<and> node_data l' as' = items (snd (Queue_calls cs q))"
  using assms
proof (induction cs q arbitrary: l as rule: Queue_calls.induct)
  case (1 q)
  then show ?case by auto
next
  case (2 item cs q)
  obtain n l' where e: "LinkedListQueue_enqueue item l = Inr (n, l')"
      "linked l' (as @ [length (nodes l)])"
      "node_data l' (as @ [length (nodes l)]) = node_data l as @ [item]"
    using enqueue_linked [OF "2.prems"(1)] by blast
  have "node_data l' (as @ [length (nodes l)]) = items (snd (Queue_enqueue item q))"
    using e(3) "2.prems"(2) by (simp add: Queue_enqueue_def Let_def)
  then show ?case
    using "2.IH" [OF e(2)] e(1) by simp
next
  case (3 cs q)
  show ?case
  proof (cases as)
    case Nil
    then have d: "LinkedListQueue_dequeue l = Inr (None, l)"
      using "3.prems"(1) dequeue_linked_empty by simp
    have iq: "items q = []" using "3.prems"(2) Nil by (simp add: node_data_def)
    then have dq: "Queue_dequeue q = (None, q)" by (simp add: Queue_dequeue_def)
    obtain l' as' where r: "LinkedListQueue_calls cs l = Inr (fst (Queue_calls cs q), l')"
        "linked l' as'" "node_data l' as' = items (snd (Queue_calls cs q))"
      using "3.IH" [OF dq [symmetric] "3.prems"] by blast
    then show ?thesis using d dq by (auto split: prod.splits)
  next
    case (Cons a rest)
    obtain l1 where d: "LinkedListQueue_dequeue l = Inr (Some (data (nodes l ! a)), l1)"
        "linked l1 rest" "node_data l1 rest = node_data l rest"
      using dequeue_linked "3.prems"(1) Cons by blast
    have iq: "items q = data (nodes l ! a) # node_data l rest"
      using "3.prems"(2) Cons by (simp add: node_data_def)
    then have dq: "Queue_dequeue q = (Some (data (nodes l ! a)), q\<lparr>items := node_data l rest\<rparr>)"
      by (simp add: Queue_dequeue_def)
    have "node_data l1 rest = items (q\<lparr>items := node_data l rest\<rparr>)"
      using d(3) by simp
    then obtain l' as' where r: "LinkedListQueue_calls cs l1
          = Inr (fst (Queue_calls cs (q\<lparr>items := node_data l rest\<rparr>)), l')"
        "linked l' as'"
        "node_data l' as' = items (snd (Queue_calls cs (q\<lparr>items := node_data l rest\<rparr>)))"
      using "3.IH" [OF dq [symmetric] d(2)] by blast
    then show ?thesis using d(1) dq by (auto split: prod.splits)
  qed
qed

text \<open>
  Claim C8.  For every sequence of \<open>enqueue\<close> and \<open>dequeue\<close> calls on a fresh queue: the
  items the array-backed queue has returned, followed by the items it still holds, are
  the enqueued items in the order they were enqueued; the linked queue runs without
  error and returns exactly the same results, call for call, and holds the same items.
  A \<open>dequeue\<close> on an empty queue returns the absent value (\<open>undefined\<close> for the array
  queue, \<open>null\<close> for the linked queue) and leaves the state unchanged.
\<close>

theorem queues_are_fifo:
  "dequeued (fst (Queue_calls cs new_Queue)) @ items (snd (Queue_calls cs new_Queue))
     = enqueued cs
   \<and> (\<exists>l. LinkedListQueue_calls cs new_LinkedListQueue = Inr (fst (Queue_calls cs new_Queue), l)
          \<and> LinkedListQueue_items l = items (snd (Queue_calls cs new_Queue)))
   \<and> (items q = [] \<longrightarrow> Queue_dequeue q = (None, q))
   \<and> (head k = None \<longrightarrow> LinkedListQueue_dequeue k = Inr (None, k))"
proof -
  have 1: "dequeued (fst (Queue_calls cs new_Queue)) @ items (snd (Queue_calls cs new_Queue))
     = enqueued cs"
    using Queue_calls_fifo [of cs new_Queue] by (simp add: new_Queue_def)
  have "linked (new_LinkedListQueue :: 'a LinkedListQueue) []"
    by (simp add: linked_def new_LinkedListQueue_def)
  moreover have "node_data (new_LinkedListQueue :: 'a LinkedListQueue) [] = items (new_Queue :: 'a Queue)"
    by (simp add: node_data_def new_Queue_def)
  ultimately obtain l as where l: "LinkedListQueue_calls cs new_LinkedListQueue
        = Inr (fst (Queue_calls cs new_Queue), l)"
      "linked l as" "node_data l as = items (snd (Queue_calls cs new_Queue))"
    using LinkedListQueue_calls_refine by blast
  have 2: "\<exists>l. LinkedListQueue_calls cs new_LinkedListQueue = Inr (fst (Queue_calls cs new_Queue), l)
          \<and> LinkedListQueue_items l = items (snd (Queue_calls cs new_Queue))"
    using l linked_items by metis
  have 3: "items q = [] \<longrightarrow> Queue_dequeue q = (None, q)"
    by (simp add: Queue_dequeue_def)
  have 4: "head k = None \<longrightarrow> LinkedListQueue_dequeue k = Inr (None, k)"
    by (simp add: LinkedListQueue_dequeue_def)
  show ?thesis using 1 2 3 4 by blast
qed

theorem queues_are_fifo_witness:
  "Queue_calls [Enqueue (1::int), Enqueue 2, Dequeue, Enqueue 3, Dequeue, Dequeue, Dequeue, Enqueue 4]
     new_Queue = ([Some 1, Some 2, Some 3, None], \<lparr>items = [4]\<rparr>)
   \<and> enqueued [Enqueue (1::int), Enqueue 2, Dequeue, Enqueue 3, Dequeue, Dequeue, Dequeue, Enqueue 4]
     = dequeued [Some 1, Some 2, Some 3, None] @ [4]
   \<and> (\<exists>l. LinkedListQueue_calls
            [Enqueue (1::int), Enqueue 2, Dequeue, Enqueue 3, Dequeue, Dequeue, Dequeue, Enqueue 4]
            new_LinkedListQueue = Inr ([Some 1, Some 2, Some 3, None], l)
          \<and> LinkedListQueue_items l = [4])
   \<and> items (new_Queue :: int Queue) = []
   \<and> Queue_dequeue (new_Queue :: int Queue) = (None, new_Queue)
   \<and> head (new_LinkedListQueue :: int LinkedListQueue) = None
   \<and> LinkedListQueue_dequeue (new_LinkedListQueue :: int LinkedListQueue)
       = Inr (None, new_LinkedListQueue)"
proof -
  have e: "Queue_calls [Enqueue (1::int), Enqueue 2, Dequeue, Enqueue 3, Dequeue, Dequeue, Dequeue, Enqueue 4]
     new_Queue = ([Some 1, Some 2, Some 3, None], \<lparr>items = [4]\<rparr>)"
    by code_simp
  have i: "items (new_Queue :: int Queue) = []"
    by (simp add: new_Queue_def)
  have h: "head (new_LinkedListQueue :: int LinkedListQueue) = None"
    by (simp add: new_LinkedListQueue_def)
  note t = queues_are_fifo
        [of "[Enqueue (1::int), Enqueue 2, Dequeue, Enqueue 3, Dequeue, Dequeue, Dequeue, Enqueue 4]"
            new_Queue new_LinkedListQueue, unfolded e fst_conv snd_conv]
  have 1: "enqueued [Enqueue (1::int), Enqueue 2, Dequeue, Enqueue 3, Dequeue, Dequeue, Dequeue, Enqueue 4]
     = dequeued [Some 1, Some 2, Some 3, None] @ [4]"
    by simp
  have 2: "\<exists>l. LinkedListQueue_calls
            [Enqueue (1::int), Enqueue 2, Dequeue, Enqueue 3, Dequeue, Dequeue, Dequeue, Enqueue 4]
            new_LinkedListQueue = Inr ([Some 1, Some 2, Some 3, None], l)
          \<and> LinkedListQueue_items l = [4]"
    using t [THEN conjunct2, THEN conjunct1] by (simp del: LinkedListQueue_calls.simps)
  have 3: "Queue_dequeue (new_Queue :: int Queue) = (None, new_Queue)"
    using t [THEN conjunct2, THEN conjunct2, THEN conjunct1] i by (rule mp)
  have 4: "LinkedListQueue_dequeue (new_LinkedListQueue :: int LinkedListQueue)
       = Inr (None, new_LinkedListQueue)"
    using t [THEN conjunct2, THEN conjunct2, THEN conjunct2] h by (rule mp)
  show ?thesis
    by (intro conjI e 1 2 i 3 h 4)
qed

subsection \<open>Heaps that hold non-negative numbers only\<close>

text \<open>
  As long as every inserted number is at least 0, the comparison with the sentinel is
  false and the heap behaves as specified: the reachable states satisfy the data model,
  \<open>insert\<close> is the sift-up of the specification, \<open>top\<close> returns the minimum, and
  inserting a list and extracting as many times returns it sorted and empties the heap.
\<close>

lemma sentinel_ok_invariant:
  assumes "heap_ordered (heap h)" and "sentinel_ok (heap h)"
  shows "heap_invariant h"
proof -
  have "heap_invariant (h\<lparr>heap := heap h\<rparr>)"
  proof (rule heap_invariantI)
    show "heap h \<noteq> []" "heap h ! 0 = Null"
      using assms(2) by (simp_all add: sentinel_ok_def)
    show "\<forall>v\<in>set (tl (heap h)). is_number v"
      using assms(2) by (auto simp: sentinel_ok_def)
    show "\<forall>j<length (heap h). 1 < j \<longrightarrow> key (heap h ! (j div 2)) \<le> key (heap h ! j)"
      using assms(1) by (simp add: heap_ordered_def)
  qed
  then show ?thesis by simp
qed

lemma top_invariant:
  assumes "heap_invariant h" and "0 < MinHeap_size h"
  shows "\<exists>m. MinHeap_top h = (m, h) \<and> m \<in> set (stored h) \<and> (\<forall>v\<in>set (stored h). js_le m v)"
proof -
  obtain m h' where e: "MinHeap_extract h = Some (m, h')" "m \<in> set (stored h)"
      "\<forall>v\<in>set (stored h). js_le m v"
    using extract_invariant [OF assms] by blast
  have l: "2 \<le> length (heap h)" using assms(2) by (simp add: MinHeap_size_def)
  then have "m = js_get (heap h) 1"
    using e(1)
    by (auto simp: MinHeap_extract_def Let_def MinHeap_shiftDown_def
             split: if_splits prod.splits)
  then show ?thesis using e(2,3) by (simp add: MinHeap_top_def)
qed

lemma insert_all_snoc:
  "insert_all (vs @ [v]) h = MinHeap_insert v (insert_all vs h)"
  by (simp add: insert_all_def)

lemma insert_all_nonnegative:
  assumes "heap_ordered (heap h)" and "sentinel_ok (heap h)" and "\<forall>v\<in>set vs. 0 \<le> v"
  shows "heap_ordered (heap (insert_all vs h)) \<and> sentinel_ok (heap (insert_all vs h))
       \<and> mset (stored (insert_all vs h)) = mset (stored h) + mset (map Num vs)"
  using assms(3)
proof (induction vs rule: rev_induct)
  case Nil
  then show ?case using assms(1,2) by (simp add: insert_all_def)
next
  case (snoc v vs)
  let ?g = "insert_all vs h"
  have IH: "heap_ordered (heap ?g)" "sentinel_ok (heap ?g)"
      "mset (stored ?g) = mset (stored h) + mset (map Num vs)"
    using snoc by simp_all
  have v: "0 \<le> v" using snoc.prems by simp
  have o: "heap_ordered (heap (MinHeap_insert v ?g))"
    and ms: "mset (heap (MinHeap_insert v ?g)) = add_mset (Num v) (mset (heap ?g))"
    using insert_heap_ordered [OF IH(1), of v] by simp_all
  have s: "sentinel_ok (heap (MinHeap_insert v ?g))"
    using insert_sentinel_ok [OF IH(1,2) v] .
  have ne: "heap ?g \<noteq> []" "heap (MinHeap_insert v ?g) \<noteq> []"
    and z: "heap ?g ! 0 = Null" "heap (MinHeap_insert v ?g) ! 0 = Null"
    using IH(2) s by (simp_all add: sentinel_ok_def)
  have "add_mset Null (mset (tl (heap (MinHeap_insert v ?g))))
        = add_mset (Num v) (add_mset Null (mset (tl (heap ?g))))"
    using ms mset_tl [OF ne(1)] mset_tl [OF ne(2)] z by simp
  then have "mset (stored (MinHeap_insert v ?g)) = add_mset (Num v) (mset (stored ?g))"
    by (simp add: stored_def)
  then show ?case using o s IH(3) by (simp add: insert_all_snoc)
qed

lemma extract_times_sorted:
  assumes "heap_invariant h" and "n = MinHeap_size h"
  shows "\<exists>rs h'. extract_times n h = Some (rs, h') \<and> sorted_wrt js_le rs
            \<and> mset rs = mset (stored h) \<and> heap h' = [Null]"
  using assms
proof (induction n arbitrary: h)
  case 0
  then have "length (heap h) = 1"
    using heap_invariant_facts(1) [OF "0.prems"(1)]
    by (cases "heap h") (simp_all add: MinHeap_size_def)
  then obtain s where s: "heap h = [s]" by (cases "heap h") auto
  then have "s = Null" using heap_invariant_facts(2) [OF "0.prems"(1)] by simp
  then show ?case using s by (simp add: stored_def)
next
  case (Suc n)
  have pos: "0 < MinHeap_size h" using Suc.prems(2) by simp
  obtain m h1 where e: "MinHeap_extract h = Some (m, h1)" "m \<in> set (stored h)"
      "\<forall>v\<in>set (stored h). js_le m v" "mset (stored h) = add_mset m (mset (stored h1))"
      "MinHeap_size h1 = MinHeap_size h - 1" "heap_invariant h1"
    using extract_invariant [OF Suc.prems(1) pos] by blast
  have "n = MinHeap_size h1" using e(5) Suc.prems(2) by simp
  then obtain rs h' where r: "extract_times n h1 = Some (rs, h')" "sorted_wrt js_le rs"
      "mset rs = mset (stored h1)" "heap h' = [Null]"
    using Suc.IH [OF e(6)] by blast
  have "set rs \<subseteq> set (stored h)"
    using r(3) e(4) by (metis set_mset_add_mset_insert set_mset_mset subset_insertI)
  then have "\<forall>v\<in>set rs. js_le m v" using e(3) by auto
  then have "sorted_wrt js_le (m # rs)" using r(2) by simp
  moreover have "mset (m # rs) = mset (stored h)" using r(3) e(4) by simp
  ultimately show ?case using e(1) r(1,4) by auto
qed

lemma sorted_numbers:
  assumes "sorted_wrt js_le rs" and "mset rs = mset (map Num vs)"
  shows "rs = map Num (sort vs)"
proof -
  have "\<forall>r\<in>set rs. \<exists>k. r = Num k"
    using assms(2) by (metis (no_types, lifting) imageE mset_eq_setD set_map)
  then obtain ks where ks: "rs = map Num ks"
    by (induction rs) (auto, metis list.simps(9))
  have inj: "inj Num" by (simp add: inj_def)
  have "mset ks = mset vs"
    using assms(2) ks inj by (metis mset_map multiset.inj_map_strong injD)
  moreover have "sorted ks"
    using assms(1) ks by (simp add: sorted_wrt_map js_le_def)
  ultimately have "sort vs = ks" by (simp add: properties_for_sort)
  then show ?thesis using ks by simp
qed

lemma heapsort_nonnegative:
  assumes "\<forall>v\<in>set vs. 0 \<le> v"
  shows "extract_times (length vs) (insert_all vs new_MinHeap)
         = Some (map Num (sort vs), new_MinHeap)"
proof -
  let ?h = "insert_all vs new_MinHeap"
  have s0: "sentinel_ok (heap new_MinHeap)"
    by (simp add: sentinel_ok_def new_MinHeap_def)
  have i: "heap_ordered (heap ?h)" "sentinel_ok (heap ?h)"
      "mset (stored ?h) = mset (stored new_MinHeap) + mset (map Num vs)"
    using insert_all_nonnegative [OF heap_ordered_new s0 assms] by simp_all
  then have ms: "mset (stored ?h) = mset (map Num vs)"
    by (simp add: stored_def new_MinHeap_def)
  have inv: "heap_invariant ?h" using sentinel_ok_invariant i(1,2) by simp
  have "length (stored ?h) = length vs"
    using ms by (metis length_map size_mset)
  moreover have "heap ?h \<noteq> []" using i(2) by (simp add: sentinel_ok_def)
  ultimately have n: "length vs = MinHeap_size ?h"
    by (simp add: stored_def MinHeap_size_def)
  obtain rs h' where r: "extract_times (length vs) ?h = Some (rs, h')" "sorted_wrt js_le rs"
      "mset rs = mset (stored ?h)" "heap h' = [Null]"
    using extract_times_sorted [OF inv n] by blast
  have "rs = map Num (sort vs)" using sorted_numbers r(2,3) ms by simp
  moreover have "h' = new_MinHeap" using r(4) by (simp add: new_MinHeap_def)
  ultimately show ?thesis using r(1) by simp
qed

lemma calls_nonnegative_invariant:
  assumes "nonnegative_inserts cs"
  shows "\<exists>h. MinHeap_calls cs new_MinHeap = Some h \<and> heap_invariant h"
proof -
  have s0: "sentinel_ok (heap new_MinHeap)"
    by (simp add: sentinel_ok_def new_MinHeap_def)
  have nn: "\<forall>num. Insert num \<in> set cs \<longrightarrow> 0 \<le> num"
    using assms by (simp add: nonnegative_inserts_iff)
  obtain h where h: "MinHeap_calls cs new_MinHeap = Some h" "sentinel_ok (heap h)"
    using calls_sentinel_ok [OF heap_ordered_new s0 nn] by blast
  obtain h' where h': "MinHeap_calls cs new_MinHeap = Some h'" "heap_ordered (heap h')"
    using calls_heap_ordered [OF heap_ordered_new] by blast
  then have "h' = h" using h(1) by simp
  then show ?thesis using h h'(2) sentinel_ok_invariant by blast
qed

lemma top_returns_minimum_nonnegative:
  assumes "nonnegative_inserts cs" and "MinHeap_calls cs new_MinHeap = Some h"
    and "0 < MinHeap_size h"
  shows "\<exists>m. MinHeap_top h = (m, h) \<and> m \<in> set (stored h) \<and> (\<forall>v\<in>set (stored h). js_le m v)"
  using calls_nonnegative_invariant [OF assms(1)] assms(2,3) top_invariant by auto

lemma insert_loop_follows_spec_nonnegative:
  assumes "xs ! 0 = Null" and "\<forall>i<length xs. 0 < i \<longrightarrow> (\<exists>n\<ge>0. xs ! i = Num n)"
    and "c < length xs"
  shows "insert_loop xs c (c div 2) = sift_up_spec xs c"
  using assms
proof (induction c arbitrary: xs rule: less_induct)
  case (less c)
  let ?p = "c div 2"
  have pl: "?p < length xs" using less.prems(3) by simp
  show ?case
  proof (cases "js_lt (js_get xs c) (js_get xs ?p)")
    case False
    then show ?thesis
      by (simp add: insert_loop.simps [of xs c ?p] sift_up_spec.simps [of xs c])
  next
    case True
    then have lt: "js_lt (xs ! c) (xs ! ?p)"
      using less.prems(3) pl by (simp add: js_get_def)
    then have cp: "?p \<noteq> c" by (auto simp: js_lt_iff)
    then have c0: "0 < c" and pc: "?p < c" by auto
    have p0: "0 < ?p"
    proof (rule ccontr)
      assume "\<not> 0 < ?p"
      then have "xs ! ?p = Null" using less.prems(1) by simp
      moreover obtain n where "0 \<le> n" "xs ! c = Num n"
        using less.prems(2,3) c0 by blast
      ultimately show False using lt by (simp add: js_lt_def)
    qed
    then have c1: "1 < c" using pc by simp
    define ys where "ys = MinHeap_swap xs c ?p"
    have ys: "ys = xs[c := xs ! ?p, ?p := xs ! c]"
      using less.prems(3) pl by (simp add: ys_def swap_in_range)
    have a1: "ys ! 0 = Null" using less.prems(1) c0 p0 by (simp add: ys)
    have a2: "\<forall>i<length ys. 0 < i \<longrightarrow> (\<exists>n\<ge>0. ys ! i = Num n)"
    proof (intro allI impI)
      fix i assume i: "i < length ys" "0 < i"
      have "ys ! i = xs ! ?p \<or> ys ! i = xs ! c \<or> ys ! i = xs ! i"
        using i(1) less.prems(3) pl
        by (cases "i = ?p"; cases "i = c") (simp_all add: ys)
      then show "\<exists>n\<ge>0. ys ! i = Num n"
        using less.prems(2,3) pl c0 p0 i by (metis length_list_update ys)
    qed
    have a3: "?p < length ys" using pl by (simp add: ys)
    have "insert_loop xs c ?p = insert_loop ys ?p (?p div 2)"
      using True by (simp add: insert_loop.simps [of xs c ?p] ys_def)
    moreover have "sift_up_spec xs c = sift_up_spec ys ?p"
      using True c1 by (simp add: sift_up_spec.simps [of xs c] ys_def)
    ultimately show ?thesis using less.IH [OF pc a1 a2 a3] by simp
  qed
qed

lemma insert_follows_spec_nonnegative:
  assumes "sentinel_ok (heap h)" and "0 \<le> num"
  shows "heap (MinHeap_insert num h)
         = sift_up_spec (heap h @ [Num num]) (length (heap h))"
proof -
  define xs where "xs = heap h @ [Num num]"
  have ne: "heap h \<noteq> []" and z: "heap h ! 0 = Null"
    and nn: "\<forall>v\<in>set (tl (heap h)). \<exists>n\<ge>0. v = Num n"
    using assms(1) by (auto simp: sentinel_ok_def)
  have x0: "xs ! 0 = Null" using ne z by (simp add: xs_def nth_append)
  have xn: "\<forall>i<length xs. 0 < i \<longrightarrow> (\<exists>n\<ge>0. xs ! i = Num n)"
  proof (intro allI impI)
    fix i assume i: "i < length xs" "0 < i"
    have "set (tl xs) = insert (Num num) (set (tl (heap h)))"
      using ne by (simp add: xs_def)
    moreover have "xs ! i \<in> set (tl xs)"
      using i by (cases xs; cases i) auto
    ultimately show "\<exists>n\<ge>0. xs ! i = Num n" using nn assms(2) by auto
  qed
  have "insert_loop xs (length (heap h)) (length (heap h) div 2)
        = sift_up_spec xs (length (heap h))"
    by (rule insert_loop_follows_spec_nonnegative [OF x0 xn]) (simp add: xs_def)
  then show ?thesis
    by (simp add: MinHeap_insert_def Let_def xs_def)
qed

subsection \<open>The scenarios of the specification\<close>

lemma round_trip_scenario:
  "extract_times 8 (insert_all [5, 3, 2, 7, 8, 23, 2, 3] new_MinHeap)
   = Some ([Num 2, Num 2, Num 3, Num 3, Num 5, Num 7, Num 8, Num 23], new_MinHeap)"
  by code_simp

lemma single_element_scenario:
  "MinHeap_top (MinHeap_insert 42 new_MinHeap) = (Num 42, MinHeap_insert 42 new_MinHeap)
   \<and> MinHeap_extract (MinHeap_insert 42 new_MinHeap) = Some (Num 42, new_MinHeap)
   \<and> MinHeap_top new_MinHeap = (Undefined, new_MinHeap)"
  by code_simp

lemma duplicate_min_scenario:
  "extract_times 3 (insert_all [4, 4, 4] new_MinHeap) = Some ([Num 4, Num 4, Num 4], new_MinHeap)"
  by code_simp

lemma two_element_scenario:
  "MinHeap_extract (insert_all [9, 1] new_MinHeap) = Some (Num 1, \<lparr>heap = [Null, Num 9]\<rparr>)
   \<and> fst (MinHeap_top \<lparr>heap = [Null, Num 9]\<rparr>) = Num 9"
  by code_simp

subsection \<open>The empty heap\<close>

lemma extract_times_empty:
  "length (heap h) = 1 \<Longrightarrow> extract_times n h = Some (replicate n Null, h)"
  by (induction n) (simp_all add: MinHeap_extract_def)

text \<open>
  Claim C5.  On an empty heap (the backing array holds the sentinel only), \<open>top()\<close>
  returns \<open>undefined\<close> and \<open>extract()\<close> returns \<open>null\<close>: neither is a number, both calls
  return, and both leave the state as it was.  Calling \<open>extract()\<close> any number \<open>n\<close> of
  times returns \<open>null\<close> each time and leaves the state, hence the size, unchanged.
\<close>

theorem empty_heap_signals_absence:
  assumes "length (heap h) = 1"
  shows "MinHeap_top h = (Undefined, h) \<and> \<not> is_number Undefined
       \<and> MinHeap_extract h = Some (Null, h) \<and> \<not> is_number Null
       \<and> extract_times n h = Some (replicate n Null, h)"
  using assms extract_times_empty [of h n]
  by (simp add: MinHeap_top_def js_get_def MinHeap_extract_def)

theorem empty_heap_signals_absence_witness:
  "length (heap new_MinHeap) = 1
   \<and> MinHeap_top new_MinHeap = (Undefined, new_MinHeap)
   \<and> MinHeap_extract new_MinHeap = Some (Null, new_MinHeap)
   \<and> extract_times 3 new_MinHeap = Some ([Null, Null, Null], new_MinHeap)"
proof -
  have e: "length (heap new_MinHeap) = 1"
    by (simp add: new_MinHeap_def)
  show ?thesis
    using e empty_heap_signals_absence [OF e, of 3]
    by (simp add: numeral_3_eq_3)
qed

subsection \<open>Inserting a negative number\<close>

text \<open>
  The loop of \<open>insert\<close> has no test for the root: at index 1 it compares the new number
  with the sentinel at index 0, and \<open>n < null\<close> is \<open>n < 0\<close>.  A negative number is
  therefore swapped into the sentinel slot, and \<open>null\<close> takes its place at index 1.
\<close>

text \<open>
  Claim C4, at the input \<open>insert(-1)\<close> on a fresh heap: the sift-up loop moves the value
  past index 1, into index 0.
\<close>

theorem insert_negative_reaches_sentinel_slot:
  "heap (MinHeap_insert (- 1) new_MinHeap) = [Num (- 1), Null]"
  by code_simp

text \<open>
  Claim C1, at the input \<open>[-1]\<close>: after \<open>insert(-1)\<close>, one call of \<open>extract()\<close> returns
  \<open>null\<close>, not \<open>-1\<close>, and the backing array is left holding \<open>-1\<close> in the sentinel slot.
\<close>

theorem insert_negative_then_extract:
  "extract_times 1 (insert_all [- 1] new_MinHeap) = Some ([Null], \<lparr>heap = [Num (- 1)]\<rparr>)"
  by code_simp

text \<open>
  Claim C3, at the heap reached by \<open>insert(5)\<close>, \<open>insert(-3)\<close>, \<open>insert(4)\<close>,
  \<open>insert(-7)\<close>: the backing array is \<open>[-7, -3, null, 4, 5]\<close>, with the smallest number in
  the sentinel slot, and \<open>extract()\<close> returns \<open>-3\<close> while \<open>-7\<close> is stored; \<open>-7\<close> stays in
  the sentinel slot afterwards.
\<close>

theorem extract_after_negative_inserts:
  "MinHeap_calls [Insert 5, Insert (- 3), Insert 4, Insert (- 7)] new_MinHeap
     = Some \<lparr>heap = [Num (- 7), Num (- 3), Null, Num 4, Num 5]\<rparr>
   \<and> MinHeap_extract \<lparr>heap = [Num (- 7), Num (- 3), Null, Num 4, Num 5]\<rparr>
     = Some (Num (- 3), \<lparr>heap = [Num (- 7), Null, Num 5, Num 4]\<rparr>)"
  by code_simp

text \<open>
  Claim C7, at the heap reached by \<open>insert(-1)\<close>: the heap is not empty, and \<open>top()\<close>
  returns \<open>null\<close> instead of the stored minimum \<open>-1\<close>.
\<close>

theorem top_after_negative_insert:
  "MinHeap_calls [Insert (- 1)] new_MinHeap = Some \<lparr>heap = [Num (- 1), Null]\<rparr>
   \<and> MinHeap_top \<lparr>heap = [Num (- 1), Null]\<rparr> = (Null, \<lparr>heap = [Num (- 1), Null]\<rparr>)"
  by code_simp

subsection \<open>The two versions of insert\<close>

lemma index_js_guard_in_range:
  assumes "js_lt (js_get_int xs currentIdx) (js_get_int xs parentIdx)"
  shows "0 \<le> currentIdx \<and> currentIdx < int (length xs)
       \<and> 0 \<le> parentIdx \<and> parentIdx < int (length xs)"
  using assms by (auto simp: js_lt_def js_get_int_def split: option.splits if_splits)

text \<open>
  Claim C10, at the insertions \<open>2, 3, 4, 1\<close> into a fresh heap: the insert of
  src/MinHeap/index.js stops with \<open>1\<close> at index 2 below \<open>2\<close> at index 1 (after the first
  swap it takes the parent of index 2 to be index 0), while the insert of
  src/unnamed/part\_000 moves \<open>1\<close> to the root.  The two backing arrays differ.
\<close>

theorem index_js_insert_differs:
  "heap (insert_all_index_js [2, 3, 4, 1] new_MinHeap) = [Null, Num 2, Num 1, Num 4, Num 3]
   \<and> heap (insert_all [2, 3, 4, 1] new_MinHeap) = [Null, Num 1, Num 2, Num 4, Num 3]"
  by code_simp

end
